theory Spec2Isabelle
  imports Main "HOL-Library.Word" "HOL-Library.Sublist"
begin

unbundle bit_operations_syntax

section \<open>Machine types\<close>

text \<open>
  The state word is a \<open>std::uint32_t\<close>, a buffer index is a \<open>uint16_t\<close>, and the template
  argument \<open>N\<close> as well as every count is a \<open>size_t\<close> (taken as 64 bits wide).  An
  \<open>index_t\<close> operand of an arithmetic operator is promoted to a 32-bit integer first.
\<close>

type_synonym uint32_t = "32 word"
type_synonym index_t = "16 word"
type_synonym size_t = "64 word"

text \<open>\<open>static_assert((N >= 2) && (N <= 32768) && ((N & (N - 1)) == 0))\<close> of the constructor.\<close>

definition valid_N :: "size_t \<Rightarrow> bool" where
  "valid_N N \<longleftrightarrow> N \<ge> 2 \<and> N \<le> 32768 \<and> N AND (N - 1) = 0"

definition INVALID_INDEX :: index_t where
  "INVALID_INDEX = - 1"

definition WRITE_POINTER_MASK :: uint32_t where
  "WRITE_POINTER_MASK = 0x00007fff"

definition WRITE_LOCK_BIT_MASK :: uint32_t where
  "WRITE_LOCK_BIT_MASK = 0x00008000"

definition READ_POINTER_MASK :: uint32_t where
  "READ_POINTER_MASK = 0x7fff0000"

definition READ_LOCK_BIT_MASK :: uint32_t where
  "READ_LOCK_BIT_MASK = 0x80000000"

section \<open>Accessors of the packed state word\<close>

definition write_pointer :: "uint32_t \<Rightarrow> index_t" where
  "write_pointer x = ucast (drop_bit 0 (x AND WRITE_POINTER_MASK))"

definition is_write_locked :: "uint32_t \<Rightarrow> bool" where
  "is_write_locked x \<longleftrightarrow> x AND WRITE_LOCK_BIT_MASK \<noteq> 0"

definition read_pointer :: "uint32_t \<Rightarrow> index_t" where
  "read_pointer x = ucast (drop_bit 16 (x AND READ_POINTER_MASK))"

definition is_read_locked :: "uint32_t \<Rightarrow> bool" where
  "is_read_locked x \<longleftrightarrow> x AND READ_LOCK_BIT_MASK \<noteq> 0"

text \<open>
  \<open>(x + 1U) % N\<close> and \<open>(x - 1U) % N\<close>: the index is promoted to \<open>unsigned int\<close>, the sum
  or difference is taken there (the difference wraps to \<open>0xffffffff\<close> at \<open>x = 0\<close>), widened
  to \<open>size_t\<close> for the remainder, and the result is narrowed to \<open>index_t\<close>.
\<close>

definition next_pointer :: "size_t \<Rightarrow> index_t \<Rightarrow> index_t" where
  "next_pointer N x = ucast ((ucast ((ucast x :: uint32_t) + 1) :: size_t) mod N)"

definition prev_pointer :: "size_t \<Rightarrow> index_t \<Rightarrow> index_t" where
  "prev_pointer N x = ucast ((ucast ((ucast x :: uint32_t) - 1) :: size_t) mod N)"

text \<open>
  \<open>(x & ~MASK) | (p << k)\<close>: the pointer is promoted to a 32-bit integer, shifted, and
  joined to the state word without being masked.
\<close>

definition mod_write_pointer :: "uint32_t \<Rightarrow> index_t \<Rightarrow> uint32_t" where
  "mod_write_pointer x wp = (x AND NOT WRITE_POINTER_MASK) OR push_bit 0 (ucast wp)"

definition mod_read_pointer :: "uint32_t \<Rightarrow> index_t \<Rightarrow> uint32_t" where
  "mod_read_pointer x rp = (x AND NOT READ_POINTER_MASK) OR push_bit 16 (ucast rp)"

definition mod_write_locked :: "uint32_t \<Rightarrow> bool \<Rightarrow> uint32_t" where
  "mod_write_locked x locked =
     (if locked then x OR WRITE_LOCK_BIT_MASK else x AND NOT WRITE_LOCK_BIT_MASK)"

definition mod_read_locked :: "uint32_t \<Rightarrow> bool \<Rightarrow> uint32_t" where
  "mod_read_locked x locked =
     (if locked then x OR READ_LOCK_BIT_MASK else x AND NOT READ_LOCK_BIT_MASK)"

text \<open>
  \<open>count\<close>: \<open>wp - rp\<close> is a difference of promoted 32-bit integers, converted to \<open>size_t\<close>;
  \<open>N - rp + wp\<close> is evaluated in \<open>size_t\<close> from left to right.
\<close>

definition count :: "size_t \<Rightarrow> uint32_t \<Rightarrow> size_t" where
  "count N x =
     (let rp = read_pointer x; wp = write_pointer x
      in if wp \<ge> rp then scast ((ucast wp :: uint32_t) - ucast rp)
         else N - ucast rp + ucast wp)"

section \<open>The buffer object\<close>

text \<open>
  \<open>empty\<close> and \<open>size\<close> of the class are \<open>empty_buffer\<close> and \<open>size_buffer\<close> here.
\<close>

record 'a lockfree_circulation_buffer =
  rpwp :: uint32_t
  elements :: "'a list"

text \<open>
  The constructor sets the state word to zero.  The \<open>N\<close> slots of \<open>elements_\<close> start with
  whatever the element type's default initialisation leaves there, given as \<open>init\<close>.
\<close>

definition new_buffer :: "'a list \<Rightarrow> 'a lockfree_circulation_buffer" where
  "new_buffer init = \<lparr>rpwp = 0, elements = init\<rparr>"

definition empty_buffer :: "'a lockfree_circulation_buffer \<Rightarrow> bool" where
  "empty_buffer b \<longleftrightarrow> read_pointer (rpwp b) = write_pointer (rpwp b)"

definition size_buffer :: "size_t \<Rightarrow> 'a lockfree_circulation_buffer \<Rightarrow> size_t" where
  "size_buffer N b = count N (rpwp b)"

definition capacity :: "size_t \<Rightarrow> size_t" where
  "capacity N = N - 1"

definition full :: "size_t \<Rightarrow> 'a lockfree_circulation_buffer \<Rightarrow> bool" where
  "full N b \<longleftrightarrow> size_buffer N b = capacity N"

text \<open>
  \<open>at(index)\<close> hands out a reference to \<open>elements_[index]\<close> without a bounds check; an index
  outside the array is undefined behaviour, which the model reports as \<open>None\<close>.  A
  reference is used either to load the slot or to store into it.
\<close>

definition at_load :: "'a lockfree_circulation_buffer \<Rightarrow> index_t \<Rightarrow> 'a option" where
  "at_load b index =
     (if unat index < length (elements b) then Some (elements b ! unat index) else None)"

definition at_store ::
  "'a lockfree_circulation_buffer \<Rightarrow> index_t \<Rightarrow> 'a \<Rightarrow> 'a lockfree_circulation_buffer option" where
  "at_store b index v =
     (if unat index < length (elements b)
      then Some (b\<lparr>elements := (elements b)[unat index := v]\<rparr>) else None)"

section \<open>The compare-and-swap retry loop\<close>

text \<open>
  \<open>compare_exchange_weak(expected, desired)\<close> on the atomic word \<open>mem\<close>: when \<open>mem\<close> holds
  \<open>expected\<close> and the attempt does not fail spuriously, \<open>desired\<close> is stored and the call
  returns true; otherwise \<open>expected\<close> is overwritten with the current content and the call
  returns false.  The result is (success, new content of \<open>mem\<close>, new \<open>expected\<close>).
\<close>

definition compare_exchange_weak ::
  "bool \<Rightarrow> uint32_t \<Rightarrow> uint32_t \<Rightarrow> uint32_t \<Rightarrow> bool \<times> uint32_t \<times> uint32_t" where
  "compare_exchange_weak spurious mem expected desired =
     (if mem = expected \<and> \<not> spurious then (True, desired, expected) else (False, mem, mem))"

text \<open>
  Every mutating operation is \<open>do { body } while (!rpwp_.compare_exchange_weak(expected,
  desired))\<close>, where the body either leaves the loop by \<open>break\<close> with \<open>result = false\<close>
  (\<open>None\<close>) or computes \<open>desired\<close> from \<open>expected\<close>.  The calls are made by one thread at a
  time, so the only way the exchange fails is spuriously; \<open>n\<close> is the number of spurious
  failures this call meets before the hardware lets an exchange through.  The exchange
  is the only place where the loop writes to the word.  The loop returns the final
  content of the word, the \<open>desired\<close> value when it ended by a successful exchange, and
  the words its exchanges stored into memory, in the order of the stores.
\<close>

function cas_loop ::
  "(uint32_t \<Rightarrow> uint32_t option) \<Rightarrow> nat \<Rightarrow> uint32_t \<Rightarrow> uint32_t
     \<Rightarrow> uint32_t \<times> uint32_t option \<times> uint32_t list" where
  "cas_loop body n mem expected =
     (case body expected of
        None \<Rightarrow> (mem, None, [])
      | Some desired \<Rightarrow>
          (let r = compare_exchange_weak (0 < n) mem expected desired
           in if fst r then (fst (snd r), Some desired, [fst (snd r)])
              else cas_loop body (n - 1) (fst (snd r)) (snd (snd r))))"
  by pat_completeness auto
termination
  by (relation "measure (\<lambda>(body, n, mem, expected). 2 * n + (if mem = expected then 0 else 1))")
     (auto simp: compare_exchange_weak_def split: if_splits)

declare cas_loop.simps [simp del]

section \<open>The operations\<close>

text \<open>The loop bodies, as functions of the \<open>expected\<close> word of the current iteration.\<close>

definition lock_write_body :: "size_t \<Rightarrow> size_t \<Rightarrow> uint32_t \<Rightarrow> uint32_t option" where
  "lock_write_body N min_free expected =
     (if is_write_locked expected then None
      else let free_count = (N - 1) - count N expected
           in if \<not> (free_count > min_free) then None
              else Some (mod_write_locked expected True))"

definition unlock_write_body :: "size_t \<Rightarrow> index_t \<Rightarrow> bool \<Rightarrow> uint32_t \<Rightarrow> uint32_t option" where
  "unlock_write_body N index commit expected =
     (if index \<noteq> write_pointer expected then None
      else if \<not> is_write_locked expected then None
      else let desired =
                 (if commit
                  then let next_wp = next_pointer N (write_pointer expected)
                       in mod_write_pointer expected next_wp
                  else expected)
           in Some (mod_write_locked desired False))"

definition lock_read_body :: "size_t \<Rightarrow> size_t \<Rightarrow> uint32_t \<Rightarrow> uint32_t option" where
  "lock_read_body N min_remains expected =
     (if is_read_locked expected then None
      else if \<not> (count N expected > min_remains) then None
      else Some (mod_read_locked expected True))"

definition unlock_read_body :: "size_t \<Rightarrow> index_t \<Rightarrow> bool \<Rightarrow> uint32_t \<Rightarrow> uint32_t option" where
  "unlock_read_body N index commit expected =
     (if index \<noteq> read_pointer expected then None
      else if \<not> is_read_locked expected then None
      else let desired =
                 (if commit
                  then let next_rp = next_pointer N (read_pointer expected)
                       in mod_read_pointer expected next_rp
                  else expected)
           in Some (mod_read_locked desired False))"

definition try_clear_body :: "uint32_t \<Rightarrow> uint32_t option" where
  "try_clear_body expected =
     (if \<not> is_write_locked expected \<and> \<not> is_read_locked expected
      then Some (mod_read_pointer expected (write_pointer expected))
      else None)"

text \<open>
  Each operation loads the state word into \<open>expected\<close>, runs its loop, and returns the
  result flag, the index where it has one, and the buffer, whose state word is the word
  the loop left in memory.  The first argument after \<open>N\<close> is the number of spurious
  exchange failures the call meets.
\<close>

definition lock_write ::
  "size_t \<Rightarrow> nat \<Rightarrow> 'a lockfree_circulation_buffer \<Rightarrow> size_t
     \<Rightarrow> bool \<times> index_t \<times> 'a lockfree_circulation_buffer" where
  "lock_write N n b min_free =
     (let expected = rpwp b;
          r = cas_loop (lock_write_body N min_free) n (rpwp b) expected
      in case fst (snd r) of
           Some desired \<Rightarrow> (True, write_pointer desired, b\<lparr>rpwp := fst r\<rparr>)
         | None \<Rightarrow> (False, INVALID_INDEX, b\<lparr>rpwp := fst r\<rparr>))"

definition unlock_write ::
  "size_t \<Rightarrow> nat \<Rightarrow> 'a lockfree_circulation_buffer \<Rightarrow> index_t \<Rightarrow> bool
     \<Rightarrow> bool \<times> 'a lockfree_circulation_buffer" where
  "unlock_write N n b index commit =
     (let expected = rpwp b;
          r = cas_loop (unlock_write_body N index commit) n (rpwp b) expected
      in (fst (snd r) \<noteq> None, b\<lparr>rpwp := fst r\<rparr>))"

definition lock_read ::
  "size_t \<Rightarrow> nat \<Rightarrow> 'a lockfree_circulation_buffer \<Rightarrow> size_t
     \<Rightarrow> bool \<times> index_t \<times> 'a lockfree_circulation_buffer" where
  "lock_read N n b min_remains =
     (let expected = rpwp b;
          r = cas_loop (lock_read_body N min_remains) n (rpwp b) expected
      in case fst (snd r) of
           Some desired \<Rightarrow> (True, read_pointer desired, b\<lparr>rpwp := fst r\<rparr>)
         | None \<Rightarrow> (False, INVALID_INDEX, b\<lparr>rpwp := fst r\<rparr>))"

definition unlock_read ::
  "size_t \<Rightarrow> nat \<Rightarrow> 'a lockfree_circulation_buffer \<Rightarrow> index_t \<Rightarrow> bool
     \<Rightarrow> bool \<times> 'a lockfree_circulation_buffer" where
  "unlock_read N n b index commit =
     (let expected = rpwp b;
          r = cas_loop (unlock_read_body N index commit) n (rpwp b) expected
      in (fst (snd r) \<noteq> None, b\<lparr>rpwp := fst r\<rparr>))"

definition try_clear ::
  "nat \<Rightarrow> 'a lockfree_circulation_buffer \<Rightarrow> bool \<times> 'a lockfree_circulation_buffer" where
  "try_clear n b =
     (let expected = rpwp b;
          r = cas_loop try_clear_body n (rpwp b) expected
      in (fst (snd r) \<noteq> None, b\<lparr>rpwp := fst r\<rparr>))"

text \<open>
  \<open>clear\<close> is \<open>while (!try_clear());\<close>.  It need not return, so the model is a partial
  function: \<open>None\<close> stands for spinning forever.  The list gives the spurious failure
  counts of the successive \<open>try_clear\<close> calls (none once it is used up).
\<close>

partial_function (option) clear ::
  "nat list \<Rightarrow> 'a lockfree_circulation_buffer \<Rightarrow> 'a lockfree_circulation_buffer option" where
  "clear ns b =
     (let r = try_clear (case ns of [] \<Rightarrow> 0 | n # _ \<Rightarrow> n) b
      in if fst r then Some (snd r) else clear (case ns of [] \<Rightarrow> [] | _ # ns' \<Rightarrow> ns') (snd r))"

declare clear.simps [code]

section \<open>Sequences of calls\<close>

text \<open>
  The buffers a program can hold: the constructor's result, and whatever any public
  operation, with any arguments, makes of such a buffer.  A store through the reference
  \<open>at(index)\<close> changes a slot; \<open>clear\<close> contributes a state only when it returns.
\<close>

inductive reachable :: "size_t \<Rightarrow> 'a lockfree_circulation_buffer \<Rightarrow> bool" for N :: size_t where
  constructed: "length init = unat N \<Longrightarrow> reachable N (new_buffer init)"
| after_lock_write: "reachable N b \<Longrightarrow> reachable N (snd (snd (lock_write N n b min_free)))"
| after_unlock_write: "reachable N b \<Longrightarrow> reachable N (snd (unlock_write N n b index commit))"
| after_lock_read: "reachable N b \<Longrightarrow> reachable N (snd (snd (lock_read N n b min_remains)))"
| after_unlock_read: "reachable N b \<Longrightarrow> reachable N (snd (unlock_read N n b index commit))"
| after_try_clear: "reachable N b \<Longrightarrow> reachable N (snd (try_clear n b))"
| after_clear: "reachable N b \<Longrightarrow> clear ns b = Some b' \<Longrightarrow> reachable N b'"
| after_store: "reachable N b \<Longrightarrow> at_store b index v = Some b' \<Longrightarrow> reachable N b'"

text \<open>
  The producer's cycle: \<open>if (buf.lock_write(index, min_free)) { buf.at(index) = v;
  buf.unlock_write(index, commit); }\<close>.  A cycle is described by the spurious failure
  counts of its two calls, \<open>min_free\<close>, and the value stored; the result is \<open>None\<close> when a
  call of the cycle fails or the store is out of bounds.  An aborted cycle may leave the
  slot alone (\<open>None\<close> for the value).
\<close>

definition write_cycle ::
  "size_t \<Rightarrow> bool \<Rightarrow> nat \<times> nat \<times> size_t \<times> 'a option \<Rightarrow> 'a lockfree_circulation_buffer
     \<Rightarrow> 'a lockfree_circulation_buffer option" where
  "write_cycle N commit c b =
     (case c of (n1, n2, min_free, v) \<Rightarrow>
        (case lock_write N n1 b min_free of
           (False, _, _) \<Rightarrow> None
         | (True, index, b1) \<Rightarrow>
             (case (case v of None \<Rightarrow> Some b1 | Some x \<Rightarrow> at_store b1 index x) of
                None \<Rightarrow> None
              | Some b2 \<Rightarrow>
                  (case unlock_write N n2 b2 index commit of
                     (False, _) \<Rightarrow> None
                   | (True, b3) \<Rightarrow> Some b3))))"

fun write_cycles ::
  "size_t \<Rightarrow> bool \<Rightarrow> (nat \<times> nat \<times> size_t \<times> 'a option) list \<Rightarrow> 'a lockfree_circulation_buffer
     \<Rightarrow> 'a lockfree_circulation_buffer option" where
  "write_cycles N commit [] b = Some b"
| "write_cycles N commit (c # cs) b =
     (case write_cycle N commit c b of
        None \<Rightarrow> None
      | Some b' \<Rightarrow> write_cycles N commit cs b')"

text \<open>
  The consumer's cycle: \<open>if (buf.lock_read(index, min_remains)) { v = buf.at(index);
  buf.unlock_read(index, commit); }\<close>, described by the two spurious failure counts and
  \<open>min_remains\<close>; it returns the value loaded and the buffer.
\<close>

definition read_cycle ::
  "size_t \<Rightarrow> bool \<Rightarrow> nat \<times> nat \<times> size_t \<Rightarrow> 'a lockfree_circulation_buffer
     \<Rightarrow> ('a \<times> 'a lockfree_circulation_buffer) option" where
  "read_cycle N commit c b =
     (case c of (n1, n2, min_remains) \<Rightarrow>
        (case lock_read N n1 b min_remains of
           (False, _, _) \<Rightarrow> None
         | (True, index, b1) \<Rightarrow>
             (case at_load b1 index of
                None \<Rightarrow> None
              | Some v \<Rightarrow>
                  (case unlock_read N n2 b1 index commit of
                     (False, _) \<Rightarrow> None
                   | (True, b2) \<Rightarrow> Some (v, b2)))))"

fun read_cycles ::
  "size_t \<Rightarrow> bool \<Rightarrow> (nat \<times> nat \<times> size_t) list \<Rightarrow> 'a lockfree_circulation_buffer
     \<Rightarrow> ('a list \<times> 'a lockfree_circulation_buffer) option" where
  "read_cycles N commit [] b = Some ([], b)"
| "read_cycles N commit (c # cs) b =
     (case read_cycle N commit c b of
        None \<Rightarrow> None
      | Some (v, b') \<Rightarrow>
          (case read_cycles N commit cs b' of
             None \<Rightarrow> None
           | Some (vs, b'') \<Rightarrow> Some (v # vs, b'')))"

section \<open>One producer and one consumer\<close>




text \<open>
  The content of the slots from the read pointer up to the write pointer, the oldest
  first.
\<close>

definition queued :: "size_t \<Rightarrow> 'a lockfree_circulation_buffer \<Rightarrow> 'a list" where
  "queued N b =
     map (\<lambda>k. elements b ! ((unat (read_pointer (rpwp b)) + k) mod unat N))
       [0..<unat (count N (rpwp b))]"




section \<open>Bit fields of the state word\<close>

text \<open>
  The four fields of the state word, bit by bit: the write pointer in bits 0 to 14, the
  write lock in bit 15, the read pointer in bits 16 to 30, the read lock in bit 31.
\<close>

lemma bit_index_less: "bit (p :: 16 word) n \<Longrightarrow> n < 16"
  by (auto dest: bit_imp_le_length)

lemma bit_word32_less: "bit (p :: 32 word) n \<Longrightarrow> n < 32"
  by (auto dest: bit_imp_le_length)

lemma bit_WRITE_POINTER_MASK: "bit WRITE_POINTER_MASK n \<longleftrightarrow> n < 15"
proof -
  have e: "WRITE_POINTER_MASK = mask 15" by (simp add: WRITE_POINTER_MASK_def mask_eq_exp_minus_1)
  show ?thesis unfolding e by (auto simp add: bit_simps)
qed

lemma bit_WRITE_LOCK_BIT_MASK: "bit WRITE_LOCK_BIT_MASK n \<longleftrightarrow> n = 15"
proof -
  have e: "WRITE_LOCK_BIT_MASK = 2 ^ 15" by (simp add: WRITE_LOCK_BIT_MASK_def)
  show ?thesis unfolding e by (simp only: bit_exp_iff) auto
qed

lemma bit_READ_POINTER_MASK: "bit READ_POINTER_MASK n \<longleftrightarrow> 16 \<le> n \<and> n < 31"
proof -
  have e: "READ_POINTER_MASK = push_bit 16 (mask 15)" by (simp add: READ_POINTER_MASK_def mask_eq_exp_minus_1 push_bit_eq_mult)
  show ?thesis unfolding e by (auto simp add: bit_simps)
qed

lemma bit_READ_LOCK_BIT_MASK: "bit READ_LOCK_BIT_MASK n \<longleftrightarrow> n = 31"
proof -
  have e: "READ_LOCK_BIT_MASK = 2 ^ 31" by (simp add: READ_LOCK_BIT_MASK_def)
  show ?thesis unfolding e by (simp only: bit_exp_iff) auto
qed

lemmas bit_masks = bit_WRITE_POINTER_MASK bit_WRITE_LOCK_BIT_MASK bit_READ_POINTER_MASK bit_READ_LOCK_BIT_MASK

lemma is_write_locked_iff: "is_write_locked x = bit x 15"
proof -
  have "x AND WRITE_LOCK_BIT_MASK = 0 \<longleftrightarrow> \<not> bit x 15"
  proof
    assume "x AND WRITE_LOCK_BIT_MASK = 0"
    then have "\<not> bit (x AND WRITE_LOCK_BIT_MASK) 15" by simp
    then show "\<not> bit x 15" by (simp add: bit_and_iff bit_masks)
  next
    assume "\<not> bit x 15"
    then show "x AND WRITE_LOCK_BIT_MASK = 0"
      by (intro bit_word_eqI) (auto simp: bit_and_iff bit_masks)
  qed
  then show ?thesis by (simp add: is_write_locked_def)
qed

lemma is_read_locked_iff: "is_read_locked x = bit x 31"
proof -
  have "x AND READ_LOCK_BIT_MASK = 0 \<longleftrightarrow> \<not> bit x 31"
  proof
    assume "x AND READ_LOCK_BIT_MASK = 0"
    then have "\<not> bit (x AND READ_LOCK_BIT_MASK) 31" by simp
    then show "\<not> bit x 31" by (simp add: bit_and_iff bit_masks)
  next
    assume "\<not> bit x 31"
    then show "x AND READ_LOCK_BIT_MASK = 0"
      by (intro bit_word_eqI) (auto simp: bit_and_iff bit_masks)
  qed
  then show ?thesis by (simp add: is_read_locked_def)
qed

lemma bit_write_pointer: "bit (write_pointer x) n \<longleftrightarrow> n < 15 \<and> bit x n"
  unfolding write_pointer_def by (auto simp: bit_simps bit_masks)

lemma bit_read_pointer: "bit (read_pointer x) n \<longleftrightarrow> n < 15 \<and> bit x (n + 16)"
  unfolding read_pointer_def by (auto simp: bit_simps bit_masks ac_simps)

lemma bit_mod_write_locked: "bit (mod_write_locked x l) n \<longleftrightarrow> (if n = 15 then l else bit x n)"
  unfolding mod_write_locked_def by (auto simp: bit_simps bit_masks dest: bit_word32_less)

lemma bit_mod_read_locked: "bit (mod_read_locked x l) n \<longleftrightarrow> (if n = 31 then l else bit x n)"
  unfolding mod_read_locked_def by (auto simp: bit_simps bit_masks dest: bit_word32_less)

lemma bit_mod_write_pointer: "bit (mod_write_pointer x p) n \<longleftrightarrow> (if n < 15 then bit p n else bit x n \<or> (n = 15 \<and> bit p 15))"
proof (cases "n = 15")
  case True
  then show ?thesis unfolding mod_write_pointer_def by (simp add: bit_simps bit_masks)
next
  case False
  then have "\<not> n < 15 \<Longrightarrow> \<not> bit p n" using bit_index_less [of p n] by auto
  then show ?thesis using False unfolding mod_write_pointer_def
    by (auto simp: bit_simps bit_masks dest: bit_word32_less)
qed

lemma bit_mod_read_pointer: "bit (mod_read_pointer x p) n \<longleftrightarrow> (if 16 \<le> n \<and> n < 31 then bit p (n - 16) else bit x n \<or> (n = 31 \<and> bit p 15))"
proof (cases "n = 31")
  case True
  then show ?thesis unfolding mod_read_pointer_def by (simp add: bit_simps bit_masks)
next
  case False
  then have "\<not> n < 31 \<Longrightarrow> \<not> bit p (n - 16)" using bit_index_less [of p "n - 16"] by auto
  then show ?thesis using False unfolding mod_read_pointer_def
    by (auto simp: bit_simps bit_masks dest: bit_word32_less)
qed

lemmas bit_fields = is_write_locked_iff is_read_locked_iff bit_write_pointer bit_read_pointer bit_mod_write_locked bit_mod_read_locked bit_mod_write_pointer bit_mod_read_pointer

lemma index_lt_2p15: 
  fixes p :: index_t
  assumes "\<And>n. bit p n \<Longrightarrow> n < 15"
  shows "unat p < 2 ^ 15"
proof -
  have "p = take_bit 15 p"
    using assms by (intro bit_word_eqI) (auto simp: bit_take_bit_iff)
  then have "unat p = take_bit 15 (unat p)"
    by (metis unsigned_take_bit_eq)
  then show ?thesis
    by (metis take_bit_nat_less_exp)
qed

lemma unat_write_pointer_lt: "unat (write_pointer x) < 2 ^ 15"
  by (rule index_lt_2p15) (simp add: bit_write_pointer)

lemma unat_read_pointer_lt: "unat (read_pointer x) < 2 ^ 15"
  by (rule index_lt_2p15) (simp add: bit_read_pointer)

lemma index_high_bits:
  assumes "unat (p :: index_t) < 32768" and "15 \<le> n"
  shows "\<not> bit p n"
proof -
  have "take_bit 15 (unat p) = unat p" using assms(1) by (simp add: take_bit_nat_eq_self)
  then have "take_bit 15 p = p" by (metis unsigned_take_bit_eq unsigned_word_eqI)
  then have "bit p n = bit (take_bit 15 p) n" by simp
  then show ?thesis using assms(2) by (simp add: bit_take_bit_iff)
qed

lemma index_bit_lt15: "unat (p :: index_t) < 32768 \<Longrightarrow> bit p n \<Longrightarrow> n < 15"
  using index_high_bits [of p n] by (cases "n < 15") auto

lemma write_pointer_mod_write_locked [simp]: "write_pointer (mod_write_locked x l) = write_pointer x"
  by (rule bit_word_eqI) (auto simp: bit_fields)

lemma write_pointer_mod_read_locked [simp]: "write_pointer (mod_read_locked x l) = write_pointer x"
  by (rule bit_word_eqI) (auto simp: bit_fields)

lemma read_pointer_mod_write_locked [simp]: "read_pointer (mod_write_locked x l) = read_pointer x"
  by (rule bit_word_eqI) (auto simp: bit_fields)

lemma read_pointer_mod_read_locked [simp]: "read_pointer (mod_read_locked x l) = read_pointer x"
  by (rule bit_word_eqI) (auto simp: bit_fields)

lemma is_write_locked_mod_write_locked [simp]: "is_write_locked (mod_write_locked x l) = l"
  by (simp add: bit_fields)

lemma is_write_locked_mod_read_locked [simp]: "is_write_locked (mod_read_locked x l) = is_write_locked x"
  by (simp add: bit_fields)

lemma is_read_locked_mod_write_locked [simp]: "is_read_locked (mod_write_locked x l) = is_read_locked x"
  by (simp add: bit_fields)

lemma is_read_locked_mod_read_locked [simp]: "is_read_locked (mod_read_locked x l) = l"
  by (simp add: bit_fields)

lemma write_pointer_mod_write_pointer:
  "unat p < 32768 \<Longrightarrow> write_pointer (mod_write_pointer x p) = p"
  by (rule bit_word_eqI) (auto simp: bit_fields dest: index_bit_lt15)

lemma read_pointer_mod_write_pointer:
  "read_pointer (mod_write_pointer x p) = read_pointer x"
  by (rule bit_word_eqI) (auto simp: bit_fields)

lemma is_write_locked_mod_write_pointer:
  "unat p < 32768 \<Longrightarrow> is_write_locked (mod_write_pointer x p) = is_write_locked x"
  by (auto simp: bit_fields dest: index_bit_lt15)

lemma is_read_locked_mod_write_pointer:
  "is_read_locked (mod_write_pointer x p) = is_read_locked x"
  by (auto simp: bit_fields)

lemma read_pointer_mod_read_pointer:
  "unat p < 32768 \<Longrightarrow> read_pointer (mod_read_pointer x p) = p"
  by (rule bit_word_eqI) (auto simp: bit_fields dest: index_bit_lt15)

lemma write_pointer_mod_read_pointer:
  "write_pointer (mod_read_pointer x p) = write_pointer x"
  by (rule bit_word_eqI) (auto simp: bit_fields)

lemma is_read_locked_mod_read_pointer:
  "unat p < 32768 \<Longrightarrow> is_read_locked (mod_read_pointer x p) = is_read_locked x"
  by (auto simp: bit_fields dest: index_bit_lt15)

lemma is_write_locked_mod_read_pointer:
  "is_write_locked (mod_read_pointer x p) = is_write_locked x"
  by (auto simp: bit_fields)

text \<open>The four fields determine the word.\<close>

lemma state_word_eqI:
  assumes wp: "write_pointer x = write_pointer y" and wl: "is_write_locked x = is_write_locked y"
    and rp: "read_pointer x = read_pointer y" and rl: "is_read_locked x = is_read_locked y"
  shows "x = y"
proof (rule bit_word_eqI)
  fix n assume "n < LENGTH(32)"
  then have n: "n < 32" by simp
  have a: "bit x k = bit y k" if "k < 15" for k
    using that arg_cong [OF wp, of "\<lambda>w. bit w k"] by (simp add: bit_write_pointer)
  have b: "bit x (k + 16) = bit y (k + 16)" if "k < 15" for k
    using that arg_cong [OF rp, of "\<lambda>w. bit w k"] by (simp add: bit_read_pointer)
  consider "n < 15" | "n = 15" | "16 \<le> n" "n < 31" | "n = 31"
    using n by linarith
  then show "bit x n = bit y n"
  proof cases
    case 1 then show ?thesis by (rule a)
  next
    case 2 then show ?thesis using wl by (simp add: is_write_locked_iff)
  next
    case 3 then show ?thesis using b [of "n - 16"] by simp
  next
    case 4 then show ?thesis using rl by (simp add: is_read_locked_iff)
  qed
qed

text \<open>Setting a lock bit and clearing it again, with or without a pointer update in between.\<close>

lemma relock_write_abort:
  "\<not> is_write_locked x \<Longrightarrow> mod_write_locked (mod_write_locked x True) False = x"
  by (rule state_word_eqI) simp_all

lemma relock_read_abort:
  "\<not> is_read_locked x \<Longrightarrow> mod_read_locked (mod_read_locked x True) False = x"
  by (rule state_word_eqI) simp_all

lemma relock_write_commit:
  assumes "\<not> is_write_locked x" and "unat p < 32768"
  shows "mod_write_locked (mod_write_pointer (mod_write_locked x True) p) False = mod_write_pointer x p"
  using assms
  by (intro state_word_eqI)
    (simp_all add: write_pointer_mod_write_pointer read_pointer_mod_write_pointer
      is_write_locked_mod_write_pointer is_read_locked_mod_write_pointer)

lemma relock_read_commit:
  assumes "\<not> is_read_locked x" and "unat p < 32768"
  shows "mod_read_locked (mod_read_pointer (mod_read_locked x True) p) False = mod_read_pointer x p"
  using assms
  by (intro state_word_eqI)
    (simp_all add: write_pointer_mod_read_pointer read_pointer_mod_read_pointer
      is_write_locked_mod_read_pointer is_read_locked_mod_read_pointer)

section \<open>Pointer arithmetic\<close>

text \<open>
  A size that passes the static assertion is a power of two between \<open>2 ^ 1\<close> and
  \<open>2 ^ 15\<close>, so it divides \<open>2 ^ 32\<close>; this is what makes the wrapped subtraction of
  \<open>prev_pointer\<close> come out right.
\<close>

lemma nat_and_pred_zero_pow2:
  fixes n :: nat
  shows "0 < n \<Longrightarrow> n AND (n - 1) = 0 \<Longrightarrow> \<exists>k. n = 2 ^ k"
proof (induction n rule: less_induct)
  case (less n)
  show ?case
  proof (cases "even n")
    case True
    then obtain m where m: "n = 2 * m" by (auto elim: evenE)
    with less.prems have m0: "0 < m" by simp
    have "(n - 1) div 2 = m - 1" using m m0 by (cases m) auto
    then have "n AND (n - 1) = 2 * (m AND (m - 1))"
      using m by (subst and_nat_rec) simp
    with less.prems have "m AND (m - 1) = 0" by simp
    moreover have "m < n" using m m0 by simp
    ultimately obtain k where "m = 2 ^ k" using less.IH m0 by blast
    then have "n = 2 ^ Suc k" using m by simp
    then show ?thesis by blast
  next
    case False
    then obtain m where m: "n = 2 * m + 1" by (auto elim: oddE)
    then have "n AND (n - 1) = 2 * m"
      by (subst and_nat_rec) simp
    with less.prems have "m = 0" by simp
    then have "n = 2 ^ 0" using m by simp
    then show ?thesis by blast
  qed
qed

lemma valid_N_pow2:
  assumes "valid_N N"
  shows "\<exists>k. 1 \<le> k \<and> k \<le> 15 \<and> unat N = 2 ^ k"
proof -
  from assms have ge: "2 \<le> unat N" and le: "unat N \<le> 32768" and z: "N AND (N - 1) = 0"
    by (simp_all add: valid_N_def word_le_nat_alt)
  from ge have "N \<noteq> 0" by auto
  then have "unat (N - 1) = unat N - 1" by (rule unat_minus_one)
  moreover from z have "unat (N AND (N - 1)) = 0" by simp
  ultimately have "unat N AND (unat N - 1) = 0" by (simp add: unsigned_and_eq)
  with ge obtain k where k: "unat N = 2 ^ k"
    using nat_and_pred_zero_pow2 [of "unat N"] by auto
  have "1 \<le> k" using ge k by (cases k) auto
  moreover have "k \<le> 15"
  proof (rule ccontr)
    assume "\<not> k \<le> 15"
    then have "16 \<le> k" by simp
    then have "(2::nat) ^ 16 \<le> 2 ^ k" by (rule power_increasing) simp
    with le k show False by simp
  qed
  ultimately show ?thesis using k by blast
qed

lemma valid_N_bounds:
  assumes "valid_N N"
  shows "2 \<le> unat N" and "unat N \<le> 32768"
  using assms by (simp_all add: valid_N_def word_le_nat_alt)

lemma unat_index_lt: "unat (x :: index_t) < 65536"
proof -
  have "unat x < 2 ^ LENGTH(16)" by (rule unsigned_less)
  then show ?thesis by simp
qed

lemma unat_ucast_index32: "unat (ucast (x :: index_t) :: uint32_t) = unat x"
  using unat_index_lt [of x] by (simp add: unsigned_ucast_eq take_bit_eq_mod)

lemma unat_ucast_index64: "unat (ucast (x :: index_t) :: size_t) = unat x"
  using unat_index_lt [of x] by (simp add: unsigned_ucast_eq take_bit_eq_mod)

lemma unat_ucast_32_64: "unat (ucast (x :: uint32_t) :: size_t) = unat x"
proof -
  have "unat x < 2 ^ LENGTH(32)" by (rule unsigned_less)
  then show ?thesis by (simp add: unsigned_ucast_eq take_bit_eq_mod)
qed

lemma unat_ucast_64_16: "unat (y :: size_t) < 65536 \<Longrightarrow> unat (ucast y :: index_t) = unat y"
  by (simp add: unsigned_ucast_eq take_bit_eq_mod)

lemma unat_next_pointer:
  assumes "valid_N N"
  shows "unat (next_pointer N x) = (unat x + 1) mod unat N"
proof -
  have "unat ((ucast x :: uint32_t) + 1) = unat x + 1"
    using unat_index_lt [of x] by (simp add: unat_word_ariths unat_ucast_index32)
  then have m: "unat ((ucast ((ucast x :: uint32_t) + 1) :: size_t) mod N) = (unat x + 1) mod unat N"
    by (simp add: unat_mod unat_ucast_32_64)
  have "(unat x + 1) mod unat N < unat N"
    using valid_N_bounds [OF assms] by simp
  then have "(unat x + 1) mod unat N < 65536"
    using valid_N_bounds [OF assms] by linarith
  then show ?thesis
    unfolding next_pointer_def by (simp add: unat_ucast_64_16 m)
qed

lemma unat_next_pointer_lt:
  assumes "valid_N N"
  shows "unat (next_pointer N x) < unat N"
  using valid_N_bounds [OF assms] by (simp add: unat_next_pointer [OF assms])

lemma unat_next_pointer_lt15:
  assumes "valid_N N"
  shows "unat (next_pointer N x) < 32768"
  using unat_next_pointer_lt [OF assms, of x] valid_N_bounds(2) [OF assms] by linarith

lemma unat_prev_pointer:
  assumes "valid_N N" and "unat x < unat N"
  shows "unat (prev_pointer N x) = (unat x + unat N - 1) mod unat N"
proof -
  obtain k where k: "1 \<le> k" "k \<le> 15" "unat N = 2 ^ k"
    using valid_N_pow2 [OF assms(1)] by blast
  have m: "unat ((ucast ((ucast x :: uint32_t) - 1) :: size_t) mod N) = (unat x + unat N - 1) mod unat N"
  proof (cases "x = 0")
    case True
    have "(2::nat) ^ 32 = 2 ^ k * 2 ^ (32 - k)"
      using k(2) by (simp flip: power_add)
    moreover obtain c where "(2::nat) ^ (32 - k) = Suc c"
      by (metis not0_implies_Suc power_not_zero zero_neq_numeral)
    ultimately have "(2::nat) ^ 32 - 1 = (2 ^ k - 1) + 2 ^ k * c"
      by simp
    then have "((2::nat) ^ 32 - 1) mod 2 ^ k = (2 ^ k - 1) mod 2 ^ k"
      by (simp only: mod_mult_self2)
    then have e: "(4294967295::nat) mod 2 ^ k = 2 ^ k - 1"
      by simp
    have "unat ((ucast ((ucast x :: uint32_t) - 1) :: size_t)) = 4294967295"
      using True by (simp add: unat_ucast_32_64 unsigned_minus_1_eq_mask mask_eq_exp_minus_1)
    then have "unat ((ucast ((ucast x :: uint32_t) - 1) :: size_t) mod N) = 2 ^ k - 1"
      using e k(3) by (simp only: unat_mod)
    moreover have "(unat x + unat N - 1) mod unat N = 2 ^ k - 1"
      using True k(3) by simp
    ultimately show ?thesis by simp
  next
    case False
    then have pos: "0 < unat x" by (simp add: unat_gt_0)
    then have "(ucast x :: uint32_t) \<noteq> 0"
      by (simp flip: unat_gt_0 add: unat_ucast_index32)
    then have "unat ((ucast x :: uint32_t) - 1) = unat x - 1"
      by (simp add: unat_minus_one unat_ucast_index32)
    moreover have "(unat x + unat N - 1) mod unat N = unat x - 1"
      using pos assms(2) by (simp add: mod_if)
    ultimately show ?thesis using assms(2)
      by (simp add: unat_mod unat_ucast_32_64)
  qed
  have "(unat x + unat N - 1) mod unat N < unat N"
    using valid_N_bounds [OF assms(1)] by simp
  then have "(unat x + unat N - 1) mod unat N < 65536"
    using valid_N_bounds [OF assms(1)] by linarith
  then show ?thesis
    unfolding prev_pointer_def by (simp add: unat_ucast_64_16 m)
qed

lemma unat_write_pointer_commit:
  assumes "valid_N N"
  shows "unat (write_pointer (mod_write_pointer x (next_pointer N (write_pointer x))))
    = (unat (write_pointer x) + 1) mod unat N"
  using unat_next_pointer_lt15 [OF assms, of "write_pointer x"]
  by (simp add: write_pointer_mod_write_pointer unat_next_pointer [OF assms])

lemma unat_read_pointer_commit:
  assumes "valid_N N"
  shows "unat (read_pointer (mod_read_pointer x (next_pointer N (read_pointer x))))
    = (unat (read_pointer x) + 1) mod unat N"
  using unat_next_pointer_lt15 [OF assms, of "read_pointer x"]
  by (simp add: read_pointer_mod_read_pointer unat_next_pointer [OF assms])

lemma unat_INVALID_INDEX: "unat INVALID_INDEX = 65535"
  by (simp add: INVALID_INDEX_def unsigned_minus_1_eq_mask mask_eq_exp_minus_1)

lemma pointer_neq_INVALID_INDEX:
  "write_pointer x \<noteq> INVALID_INDEX" "read_pointer x \<noteq> INVALID_INDEX"
  using unat_write_pointer_lt [of x] unat_read_pointer_lt [of x] unat_INVALID_INDEX
  by auto

section \<open>The fill count\<close>

text \<open>
  \<open>count\<close> as a natural number, in each of its two branches; with both pointers below
  \<open>N\<close> it is \<open>(write_pointer - read_pointer) mod N\<close>, and the subtraction from \<open>N - 1\<close>
  in \<open>lock_write\<close> does not wrap.
\<close>

lemma scast_small_32_64:
  assumes "unat (w :: uint32_t) < 2147483648"
  shows "unat (scast w :: size_t) = unat w"
proof -
  have "int (unat w) < 2147483648" using assms by linarith
  then have u: "uint w < 2 ^ 31" by (simp only: uint_nat) simp
  have "0 \<le> uint w" by (rule uint_nonnegative)
  moreover have "- (2 ^ 31) \<le> (0::int)" by simp
  ultimately have l: "- (2 ^ 31) \<le> uint w" by (rule order_trans [rotated])
  have "signed_take_bit 31 (uint w) = uint w"
    using l u by (rule signed_take_bit_int_eq_self)
  moreover have "sint w = signed_take_bit (LENGTH(32) - Suc 0) (uint w)"
    by (rule sint_uint)
  ultimately have "sint w = uint w" by simp
  then have "(scast w :: size_t) = ucast w" by (simp only: scast_eq ucast_eq)
  then show ?thesis by (simp only: unat_ucast_32_64)
qed

lemma unat_count_le:
  assumes "unat (read_pointer x) \<le> unat (write_pointer x)"
  shows "unat (count N x) = unat (write_pointer x) - unat (read_pointer x)"
proof -
  from assms have le: "read_pointer x \<le> write_pointer x" by (simp add: word_le_nat_alt)
  from assms have "(ucast (read_pointer x) :: uint32_t) \<le> ucast (write_pointer x)"
    by (simp add: word_le_nat_alt unat_ucast_index32)
  then have "unat ((ucast (write_pointer x) :: uint32_t) - ucast (read_pointer x))
      = unat (write_pointer x) - unat (read_pointer x)"
    by (simp add: unat_sub unat_ucast_index32)
  moreover have "unat (write_pointer x) - unat (read_pointer x) < 2147483648"
    using unat_index_lt [of "write_pointer x"] by linarith
  ultimately show ?thesis using le
    by (simp add: count_def scast_small_32_64)
qed

lemma unat_count_gt:
  assumes "unat (write_pointer x) < unat (read_pointer x)" and "unat (read_pointer x) \<le> unat N"
  shows "unat (count N x) = unat N - unat (read_pointer x) + unat (write_pointer x)"
proof -
  from assms(1) have nle: "\<not> read_pointer x \<le> write_pointer x" by (simp add: word_le_nat_alt)
  from assms(2) have "(ucast (read_pointer x) :: size_t) \<le> N"
    by (simp add: word_le_nat_alt unat_ucast_index64)
  then have a: "unat (N - ucast (read_pointer x)) = unat N - unat (read_pointer x)"
    by (simp add: unat_sub unat_ucast_index64)
  have "unat N < 2 ^ LENGTH(64)" by (rule unsigned_less)
  then have "unat N - unat (read_pointer x) + unat (write_pointer x) < 2 ^ LENGTH(64)"
    using assms by linarith
  then have "unat (N - ucast (read_pointer x)) + unat (ucast (write_pointer x) :: size_t) < 2 ^ LENGTH(64)"
    by (simp only: a unat_ucast_index64)
  then have "unat (N - ucast (read_pointer x) + ucast (write_pointer x))
      = unat (N - ucast (read_pointer x)) + unat (ucast (write_pointer x) :: size_t)"
    by (simp only: unat_add_lem)
  then show ?thesis using nle
    by (simp add: count_def a unat_ucast_index64)
qed

lemma unat_count_mod:
  assumes "unat (write_pointer x) < unat N" and "unat (read_pointer x) < unat N"
  shows "unat (count N x) = (unat (write_pointer x) + unat N - unat (read_pointer x)) mod unat N"
proof (cases "unat (read_pointer x) \<le> unat (write_pointer x)")
  case True
  then have e: "unat (write_pointer x) + unat N - unat (read_pointer x)
      = (unat (write_pointer x) - unat (read_pointer x)) + unat N"
    by simp
  have "unat (write_pointer x) - unat (read_pointer x) < unat N"
    using assms(1) by linarith
  then have "((unat (write_pointer x) - unat (read_pointer x)) + unat N) mod unat N
      = unat (write_pointer x) - unat (read_pointer x)"
    by simp
  then show ?thesis using True by (simp only: e unat_count_le)
next
  case False
  then have lt: "unat (write_pointer x) < unat (read_pointer x)" by simp
  then have "unat (count N x) = unat N - unat (read_pointer x) + unat (write_pointer x)"
    using assms(2) by (intro unat_count_gt) simp_all
  moreover have "unat (write_pointer x) + unat N - unat (read_pointer x) < unat N"
    using lt assms(2) by linarith
  then have "(unat (write_pointer x) + unat N - unat (read_pointer x)) mod unat N
      = unat (write_pointer x) + unat N - unat (read_pointer x)"
    by (rule mod_less)
  moreover have "unat N - unat (read_pointer x) + unat (write_pointer x)
      = unat (write_pointer x) + unat N - unat (read_pointer x)"
    using assms(2) by linarith
  ultimately show ?thesis by (simp only:)
qed

lemma unat_count_lt:
  assumes "unat (write_pointer x) < unat N" and "unat (read_pointer x) < unat N"
  shows "unat (count N x) < unat N"
proof -
  have "0 < unat N" using assms(1) by linarith
  then show ?thesis by (simp only: unat_count_mod [OF assms] mod_less_divisor)
qed

lemma int_mod_shift:
  fixes w r n :: nat
  assumes "r < n"
  shows "int ((w + n - r) mod n) = (int w - int r) mod int n"
proof -
  have "int ((w + n - r) mod n) = int (w + n - r) mod int n"
    by (rule zmod_int)
  also have "int (w + n - r) = int w - int r + int n"
    using assms by linarith
  also have "(int w - int r + int n) mod int n = (int w - int r) mod int n"
    by (rule mod_add_self2)
  finally show ?thesis .
qed

lemma uint_count_mod:
  assumes "unat (write_pointer x) < unat N" and "unat (read_pointer x) < unat N"
  shows "uint (count N x) = (uint (write_pointer x) - uint (read_pointer x)) mod uint N"
  by (simp only: uint_nat unat_count_mod [OF assms] int_mod_shift [OF assms(2)])

lemma count_empty: "read_pointer x = write_pointer x \<Longrightarrow> count N x = 0"
  by (simp add: count_def)

lemma count_nonzero_pointers_differ:
  "min_remains < count N x \<Longrightarrow> read_pointer x \<noteq> write_pointer x"
  using count_empty [of x N] by auto

lemma unat_free_count:
  assumes "valid_N N" and "unat (write_pointer x) < unat N" and "unat (read_pointer x) < unat N"
  shows "unat ((N - 1) - count N x) = unat N - 1 - unat (count N x)"
proof -
  have "N \<noteq> 0" using valid_N_bounds(1) [OF assms(1)] by auto
  then have a: "unat (N - 1) = unat N - 1" by (rule unat_minus_one)
  have "unat (count N x) \<le> unat N - 1"
    using unat_count_lt [OF assms(2,3)] by linarith
  then have "count N x \<le> N - 1" by (simp only: word_le_nat_alt a)
  then show ?thesis by (simp only: unat_sub a)
qed

lemma uint_free_count:
  assumes "valid_N N" and "unat (write_pointer x) < unat N" and "unat (read_pointer x) < unat N"
  shows "uint ((N - 1) - count N x)
    = uint N - 1 - (uint (write_pointer x) - uint (read_pointer x)) mod uint N"
proof -
  have "unat (count N x) \<le> unat N - 1"
    using unat_count_lt [OF assms(2,3)] by linarith
  moreover have "1 \<le> unat N"
    using valid_N_bounds(1) [OF assms(1)] by linarith
  ultimately have "int (unat N - 1 - unat (count N x)) = int (unat N) - 1 - int (unat (count N x))"
    by linarith
  then have "uint ((N - 1) - count N x) = uint N - 1 - uint (count N x)"
    by (simp only: uint_nat unat_free_count [OF assms])
  then show ?thesis by (simp only: uint_count_mod [OF assms(2,3)])
qed

lemma room_iff:
  assumes "valid_N N" and "unat (write_pointer x) < unat N" and "unat (read_pointer x) < unat N"
  shows "min_free < (N - 1) - count N x \<longleftrightarrow> unat min_free + unat (count N x) < unat N - 1"
proof -
  have "min_free < (N - 1) - count N x \<longleftrightarrow> unat min_free < unat N - 1 - unat (count N x)"
    by (simp only: word_less_nat_alt unat_free_count [OF assms])
  then show ?thesis by linarith
qed

lemma remains_iff: "min_remains < count N x \<longleftrightarrow> unat min_remains < unat (count N x)"
  by (rule word_less_nat_alt)

section \<open>The operations in a sequential execution\<close>

text \<open>
  When the loop starts with \<open>expected\<close> equal to the word in memory, as it does after the
  initial load, spurious failures only repeat the same iteration: the loop either breaks
  and leaves the word alone, or stores the \<open>desired\<close> word computed from it.
\<close>

lemma cas_loop_sequential:
  "cas_loop body n mem mem =
     (case body mem of None \<Rightarrow> (mem, None, []) | Some desired \<Rightarrow> (desired, Some desired, [desired]))"
proof (induction n)
  case 0
  show ?case
    by (subst cas_loop.simps) (simp add: compare_exchange_weak_def split: option.splits)
next
  case (Suc n)
  show ?case
    by (subst cas_loop.simps) (simp add: compare_exchange_weak_def Suc.IH split: option.splits)
qed

lemma lock_write_eq:
  "lock_write N n b min_free =
     (case lock_write_body N min_free (rpwp b) of
        None \<Rightarrow> (False, INVALID_INDEX, b)
      | Some desired \<Rightarrow> (True, write_pointer desired, b\<lparr>rpwp := desired\<rparr>))"
  by (simp add: lock_write_def cas_loop_sequential split: option.splits)

lemma lock_read_eq:
  "lock_read N n b min_remains =
     (case lock_read_body N min_remains (rpwp b) of
        None \<Rightarrow> (False, INVALID_INDEX, b)
      | Some desired \<Rightarrow> (True, read_pointer desired, b\<lparr>rpwp := desired\<rparr>))"
  by (simp add: lock_read_def cas_loop_sequential split: option.splits)

lemma unlock_write_eq:
  "unlock_write N n b index commit =
     (case unlock_write_body N index commit (rpwp b) of
        None \<Rightarrow> (False, b)
      | Some desired \<Rightarrow> (True, b\<lparr>rpwp := desired\<rparr>))"
  by (simp add: unlock_write_def cas_loop_sequential split: option.splits)

lemma unlock_read_eq:
  "unlock_read N n b index commit =
     (case unlock_read_body N index commit (rpwp b) of
        None \<Rightarrow> (False, b)
      | Some desired \<Rightarrow> (True, b\<lparr>rpwp := desired\<rparr>))"
  by (simp add: unlock_read_def cas_loop_sequential split: option.splits)

lemma try_clear_eq:
  "try_clear n b =
     (case try_clear_body (rpwp b) of
        None \<Rightarrow> (False, b)
      | Some desired \<Rightarrow> (True, b\<lparr>rpwp := desired\<rparr>))"
  by (simp add: try_clear_def cas_loop_sequential split: option.splits)

text \<open>
  Whatever the word in memory and however stale the \<open>expected\<close> word the loop starts
  with, the loop writes at most once: it either leaves memory as it is, or one exchange
  replaces the word in memory by the word the body computes from that very word.
\<close>

lemma cas_loop_one_exchange:
  "cas_loop body n mem expected =
     (case body expected of
        None \<Rightarrow> (mem, None, [])
      | Some _ \<Rightarrow> (case body mem of None \<Rightarrow> (mem, None, []) | Some desired \<Rightarrow> (desired, Some desired, [desired])))"
proof (cases "body expected")
  case None
  then show ?thesis by (subst cas_loop.simps) simp
next
  case (Some d)
  show ?thesis
  proof (cases "mem = expected \<and> n = 0")
    case True
    then show ?thesis using Some
      by (subst cas_loop.simps) (simp add: compare_exchange_weak_def)
  next
    case False
    then have "cas_loop body n mem expected = cas_loop body (n - 1) mem mem"
      using Some by (subst cas_loop.simps) (auto simp: compare_exchange_weak_def)
    then show ?thesis using Some by (simp add: cas_loop_sequential)
  qed
qed

lemma cas_loop_stores:
  fixes body :: "uint32_t \<Rightarrow> uint32_t option" and n :: nat and mem expected :: uint32_t
  defines "r \<equiv> cas_loop body n mem expected"
  shows "length (snd (snd r)) \<le> 1
    \<and> (r = (mem, None, []) \<or> body mem = Some (fst r) \<and> r = (fst r, Some (fst r), [fst r]))"
  unfolding r_def cas_loop_one_exchange by (simp split: option.splits)

lemma lock_write_result:
  "lock_write N n b min_free =
     (if \<not> is_write_locked (rpwp b) \<and> min_free < (N - 1) - count N (rpwp b)
      then (True, write_pointer (rpwp b), b\<lparr>rpwp := mod_write_locked (rpwp b) True\<rparr>)
      else (False, INVALID_INDEX, b))"
  by (simp add: lock_write_eq lock_write_body_def Let_def)

lemma lock_read_result:
  "lock_read N n b min_remains =
     (if \<not> is_read_locked (rpwp b) \<and> min_remains < count N (rpwp b)
      then (True, read_pointer (rpwp b), b\<lparr>rpwp := mod_read_locked (rpwp b) True\<rparr>)
      else (False, INVALID_INDEX, b))"
  by (simp add: lock_read_eq lock_read_body_def Let_def)

lemma unlock_write_result_eq:
  "unlock_write N n b index commit =
     (if index = write_pointer (rpwp b) \<and> is_write_locked (rpwp b)
      then (True, b\<lparr>rpwp := mod_write_locked
        (if commit then mod_write_pointer (rpwp b) (next_pointer N (write_pointer (rpwp b))) else rpwp b) False\<rparr>)
      else (False, b))"
  by (simp add: unlock_write_eq unlock_write_body_def Let_def)

lemma unlock_read_result_eq:
  "unlock_read N n b index commit =
     (if index = read_pointer (rpwp b) \<and> is_read_locked (rpwp b)
      then (True, b\<lparr>rpwp := mod_read_locked
        (if commit then mod_read_pointer (rpwp b) (next_pointer N (read_pointer (rpwp b))) else rpwp b) False\<rparr>)
      else (False, b))"
  by (simp add: unlock_read_eq unlock_read_body_def Let_def)

lemma try_clear_result:
  "try_clear n b =
     (if \<not> is_write_locked (rpwp b) \<and> \<not> is_read_locked (rpwp b)
      then (True, b\<lparr>rpwp := mod_read_pointer (rpwp b) (write_pointer (rpwp b))\<rparr>)
      else (False, b))"
  by (simp add: try_clear_eq try_clear_body_def)

section \<open>Reachable states\<close>

text \<open>
  \<open>clear\<close> returns exactly when no lock is held, and then does what \<open>try_clear\<close> does.
  Every reachable buffer has both pointers below \<open>N\<close> and \<open>N\<close> slots.
\<close>

lemma clear_Some:
  assumes "clear ns b = Some b'"
  shows "\<not> is_write_locked (rpwp b) \<and> \<not> is_read_locked (rpwp b)
    \<and> b' = b\<lparr>rpwp := mod_read_pointer (rpwp b) (write_pointer (rpwp b))\<rparr>"
proof (rule clear.raw_induct [where P = "\<lambda>ns b b'. \<not> is_write_locked (rpwp b) \<and> \<not> is_read_locked (rpwp b)
    \<and> b' = b\<lparr>rpwp := mod_read_pointer (rpwp b) (write_pointer (rpwp b))\<rparr>", OF _ assms])
  fix f :: "nat list \<Rightarrow> 'a lockfree_circulation_buffer \<Rightarrow> 'a lockfree_circulation_buffer option"
    and ns b y
  assume IH: "\<And>ns b y. f ns b = Some y \<Longrightarrow> \<not> is_write_locked (rpwp b) \<and> \<not> is_read_locked (rpwp b)
      \<and> y = b\<lparr>rpwp := mod_read_pointer (rpwp b) (write_pointer (rpwp b))\<rparr>"
    and eq: "(let r = try_clear (case ns of [] \<Rightarrow> 0 | n # x \<Rightarrow> n) b
      in if fst r then Some (snd r)
         else f (case ns of [] \<Rightarrow> [] | x # ns' \<Rightarrow> ns') (snd r)) = Some y"
  show "\<not> is_write_locked (rpwp b) \<and> \<not> is_read_locked (rpwp b)
      \<and> y = b\<lparr>rpwp := mod_read_pointer (rpwp b) (write_pointer (rpwp b))\<rparr>"
  proof (cases "\<not> is_write_locked (rpwp b) \<and> \<not> is_read_locked (rpwp b)")
    case True
    then show ?thesis using eq by (auto simp add: try_clear_result Let_def)
  next
    case False
    then have "f (case ns of [] \<Rightarrow> [] | x # ns' \<Rightarrow> ns') b = Some y"
      using eq by (auto simp add: try_clear_result Let_def)
    from IH [OF this] show ?thesis .
  qed
qed

lemma clear_returns:
  assumes "\<not> is_write_locked (rpwp b)" and "\<not> is_read_locked (rpwp b)"
  shows "clear ns b = Some (b\<lparr>rpwp := mod_read_pointer (rpwp b) (write_pointer (rpwp b))\<rparr>)"
  using assms by (subst clear.simps) (simp add: try_clear_result)

lemma reachable_invariant:
  assumes N: "valid_N N" and r: "reachable N b"
  shows "unat (write_pointer (rpwp b)) < unat N \<and> unat (read_pointer (rpwp b)) < unat N
    \<and> length (elements b) = unat N"
  using r
proof (induction rule: reachable.induct)
  case (constructed init)
  have "write_pointer 0 = 0" "read_pointer 0 = 0" by code_simp+
  then show ?case using constructed valid_N_bounds(1) [OF N] by (simp add: new_buffer_def)
next
  case (after_lock_write b n min_free)
  then show ?case by (simp add: lock_write_result)
next
  case (after_unlock_write b n index commit)
  then show ?case
    using unat_next_pointer_lt [OF N, of "write_pointer (rpwp b)"] unat_next_pointer_lt15 [OF N, of "write_pointer (rpwp b)"]
    by (simp add: unlock_write_result_eq write_pointer_mod_write_pointer read_pointer_mod_write_pointer)
next
  case (after_lock_read b n min_remains)
  then show ?case by (simp add: lock_read_result)
next
  case (after_unlock_read b n index commit)
  then show ?case
    using unat_next_pointer_lt [OF N, of "read_pointer (rpwp b)"] unat_next_pointer_lt15 [OF N, of "read_pointer (rpwp b)"]
    by (simp add: unlock_read_result_eq write_pointer_mod_read_pointer read_pointer_mod_read_pointer)
next
  case (after_try_clear b n)
  then show ?case
    using unat_write_pointer_lt [of "rpwp b"]
    by (simp add: try_clear_result write_pointer_mod_read_pointer read_pointer_mod_read_pointer)
next
  case (after_clear b ns b')
  then show ?case
    using unat_write_pointer_lt [of "rpwp b"] clear_Some [of ns b b']
    by (simp add: write_pointer_mod_read_pointer read_pointer_mod_read_pointer)
next
  case (after_store b index v b')
  then show ?case
    by (auto simp: at_store_def split: if_splits)
qed

section \<open>Producer and consumer cycles\<close>

text \<open>
  A cycle as one step on the buffer, and the effect of a run of committed cycles on a
  buffer whose read pointer is 0: the writes fill the slots from the write pointer
  upwards, the reads return the slots from the read pointer upwards.
\<close>

lemma write_cycle_eq:
  assumes "valid_N N"
  shows "write_cycle N commit (n1, n2, min_free, v) b =
     (if \<not> is_write_locked (rpwp b) \<and> min_free < (N - 1) - count N (rpwp b)
         \<and> (v \<noteq> None \<longrightarrow> unat (write_pointer (rpwp b)) < length (elements b))
      then Some \<lparr>rpwp = (if commit
                         then mod_write_pointer (rpwp b) (next_pointer N (write_pointer (rpwp b)))
                         else rpwp b),
                 elements = (case v of None \<Rightarrow> elements b
                             | Some x \<Rightarrow> (elements b)[unat (write_pointer (rpwp b)) := x])\<rparr>
      else None)"
  using unat_next_pointer_lt15 [OF assms, of "write_pointer (rpwp b)"]
  by (cases v)
    (simp_all add: write_cycle_def lock_write_result unlock_write_result_eq at_store_def
      relock_write_abort relock_write_commit)

lemma read_cycle_eq:
  assumes "valid_N N"
  shows "read_cycle N commit (n1, n2, min_remains) b =
     (if \<not> is_read_locked (rpwp b) \<and> min_remains < count N (rpwp b)
         \<and> unat (read_pointer (rpwp b)) < length (elements b)
      then Some (elements b ! unat (read_pointer (rpwp b)),
                 b\<lparr>rpwp := (if commit
                         then mod_read_pointer (rpwp b) (next_pointer N (read_pointer (rpwp b)))
                         else rpwp b)\<rparr>)
      else None)"
  using unat_next_pointer_lt15 [OF assms, of "read_pointer (rpwp b)"]
  by (simp add: read_cycle_def lock_read_result unlock_read_result_eq at_load_def
      relock_read_abort relock_read_commit)

lemma write_cycles_fill:
  fixes ws :: "(nat \<times> nat \<times> 'a) list"
  assumes N: "valid_N N"
  shows "length (elements b) = unat N \<Longrightarrow> unat (read_pointer (rpwp b)) = 0 \<Longrightarrow>
    \<not> is_write_locked (rpwp b) \<Longrightarrow> \<not> is_read_locked (rpwp b) \<Longrightarrow>
    unat (write_pointer (rpwp b)) + length ws \<le> unat N - 1 \<Longrightarrow>
    \<exists>b'. write_cycles N True (map (\<lambda>(n1, n2, v). (n1, n2, 0, Some v)) ws) b = Some b'
      \<and> length (elements b') = unat N \<and> unat (read_pointer (rpwp b')) = 0
      \<and> \<not> is_write_locked (rpwp b') \<and> \<not> is_read_locked (rpwp b')
      \<and> unat (write_pointer (rpwp b')) = unat (write_pointer (rpwp b)) + length ws
      \<and> take (unat (write_pointer (rpwp b)) + length ws) (elements b')
          = take (unat (write_pointer (rpwp b))) (elements b) @ map (\<lambda>(n1, n2, v). v) ws"
proof (induction ws arbitrary: b)
  case Nil
  then show ?case by simp
next
  case (Cons w ws)
  obtain n1 n2 v where w: "w = (n1, n2, v)" by (cases w)
  let ?j = "unat (write_pointer (rpwp b))"
  let ?b1 = "\<lparr>rpwp = mod_write_pointer (rpwp b) (next_pointer N (write_pointer (rpwp b))),
      elements = (elements b)[?j := v]\<rparr>"
  have j: "?j + 1 < unat N" using Cons.prems(5) by simp
  have wpN: "?j < unat N" and rpN: "unat (read_pointer (rpwp b)) < unat N"
    using j Cons.prems(2) by simp_all
  have cnt: "unat (count N (rpwp b)) = ?j"
    using unat_count_le [of "rpwp b" N] Cons.prems(2) by simp
  have room: "0 < (N - 1) - count N (rpwp b)"
    using room_iff [OF N wpN rpN, of 0] cnt j by simp
  have step: "write_cycle N True (n1, n2, 0, Some v) b = Some ?b1"
    using room Cons.prems(1,3) wpN by (simp add: write_cycle_eq [OF N])
  have wp1: "unat (write_pointer (rpwp ?b1)) = ?j + 1"
    using j by (simp add: unat_write_pointer_commit [OF N])
  have pre: "length (elements ?b1) = unat N" "unat (read_pointer (rpwp ?b1)) = 0"
    "\<not> is_write_locked (rpwp ?b1)" "\<not> is_read_locked (rpwp ?b1)"
    "unat (write_pointer (rpwp ?b1)) + length ws \<le> unat N - 1"
    using Cons.prems wp1 unat_next_pointer_lt15 [OF N, of "write_pointer (rpwp b)"]
    by (simp_all add: read_pointer_mod_write_pointer is_write_locked_mod_write_pointer
        is_read_locked_mod_write_pointer)
  from Cons.IH [OF pre] obtain b' where b':
    "write_cycles N True (map (\<lambda>(n1, n2, v). (n1, n2, 0, Some v)) ws) ?b1 = Some b'"
    "length (elements b') = unat N" "unat (read_pointer (rpwp b')) = 0"
    "\<not> is_write_locked (rpwp b')" "\<not> is_read_locked (rpwp b')"
    "unat (write_pointer (rpwp b')) = unat (write_pointer (rpwp ?b1)) + length ws"
    "take (unat (write_pointer (rpwp ?b1)) + length ws) (elements b')
      = take (unat (write_pointer (rpwp ?b1))) (elements ?b1) @ map (\<lambda>(n1, n2, v). v) ws"
    by blast
  have "take (?j + 1) ((elements b)[?j := v]) = take ?j (elements b) @ [v]"
    using wpN Cons.prems(1) by (simp add: take_Suc_conv_app_nth)
  then have tk: "take (?j + length (w # ws)) (elements b')
      = take ?j (elements b) @ map (\<lambda>(n1, n2, v). v) (w # ws)"
    using b'(7) wp1 w by simp
  have "write_cycles N True (map (\<lambda>(n1, n2, v). (n1, n2, 0, Some v)) (w # ws)) b = Some b'"
    using step b'(1) w by simp
  moreover have "unat (write_pointer (rpwp b')) = ?j + length (w # ws)"
    using b'(6) wp1 by simp
  ultimately show ?case using b'(2-5) tk by blast
qed

lemma read_cycles_drain:
  fixes rs :: "(nat \<times> nat) list"
  assumes N: "valid_N N"
  shows "length (elements b) = unat N \<Longrightarrow> unat (write_pointer (rpwp b)) < unat N \<Longrightarrow>
    \<not> is_read_locked (rpwp b) \<Longrightarrow>
    unat (read_pointer (rpwp b)) + length rs \<le> unat (write_pointer (rpwp b)) \<Longrightarrow>
    \<exists>b'. read_cycles N True (map (\<lambda>(n1, n2). (n1, n2, 0)) rs) b
        = Some (take (length rs) (drop (unat (read_pointer (rpwp b))) (elements b)), b')"
proof (induction rs arbitrary: b)
  case Nil
  then show ?case by simp
next
  case (Cons r rs)
  obtain n1 n2 where r: "r = (n1, n2)" by (cases r)
  let ?j = "unat (read_pointer (rpwp b))"
  let ?b1 = "b\<lparr>rpwp := mod_read_pointer (rpwp b) (next_pointer N (read_pointer (rpwp b)))\<rparr>"
  have j: "?j < unat (write_pointer (rpwp b))" using Cons.prems(4) by simp
  then have jN: "?j + 1 < unat N" using Cons.prems(2) by linarith
  have cnt: "unat (count N (rpwp b)) = unat (write_pointer (rpwp b)) - ?j"
    using unat_count_le [of "rpwp b" N] j by simp
  have remains: "0 < count N (rpwp b)"
    using cnt j by (simp add: remains_iff)
  have step: "read_cycle N True (n1, n2, 0) b = Some (elements b ! ?j, ?b1)"
    using remains Cons.prems(1,3) jN by (simp add: read_cycle_eq [OF N])
  have rp1: "unat (read_pointer (rpwp ?b1)) = ?j + 1"
    using jN by (simp add: unat_read_pointer_commit [OF N])
  have pre: "length (elements ?b1) = unat N" "unat (write_pointer (rpwp ?b1)) < unat N"
    "\<not> is_read_locked (rpwp ?b1)"
    "unat (read_pointer (rpwp ?b1)) + length rs \<le> unat (write_pointer (rpwp ?b1))"
    using Cons.prems rp1 unat_next_pointer_lt15 [OF N, of "read_pointer (rpwp b)"]
    by (simp_all add: write_pointer_mod_read_pointer is_read_locked_mod_read_pointer)
  from Cons.IH [OF pre] obtain b' where b':
    "read_cycles N True (map (\<lambda>(n1, n2). (n1, n2, 0)) rs) ?b1
      = Some (take (length rs) (drop (unat (read_pointer (rpwp ?b1))) (elements ?b1)), b')"
    by blast
  have "?j < length (elements b)" using jN Cons.prems(1) by simp
  then have "elements b ! ?j # take (length rs) (drop (Suc ?j) (elements b))
      = take (length (r # rs)) (drop ?j (elements b))"
    by (simp flip: Cons_nth_drop_Suc)
  then have "read_cycles N True (map (\<lambda>(n1, n2). (n1, n2, 0)) (r # rs)) b
      = Some (take (length (r # rs)) (drop ?j (elements b)), b')"
    using step b' rp1 r by simp
  then show ?case by blast
qed

section \<open>Aborted cycles\<close>

text \<open>
  An aborted write cycle changes at most the slot at the write pointer; a committed read
  cycle never loads that slot, since it needs a nonzero count.
\<close>

lemma write_cycle_abort_eq:
  "write_cycle N False (n1, n2, min_free, v) b =
     (if \<not> is_write_locked (rpwp b) \<and> min_free < (N - 1) - count N (rpwp b)
         \<and> (v \<noteq> None \<longrightarrow> unat (write_pointer (rpwp b)) < length (elements b))
      then Some \<lparr>rpwp = rpwp b,
                 elements = (case v of None \<Rightarrow> elements b
                             | Some x \<Rightarrow> (elements b)[unat (write_pointer (rpwp b)) := x])\<rparr>
      else None)"
  by (cases v)
    (simp_all add: write_cycle_def lock_write_result unlock_write_result_eq at_store_def
      relock_write_abort)

lemma read_cycle_abort_eq:
  "read_cycle N False (n1, n2, min_remains) b =
     (if \<not> is_read_locked (rpwp b) \<and> min_remains < count N (rpwp b)
         \<and> unat (read_pointer (rpwp b)) < length (elements b)
      then Some (elements b ! unat (read_pointer (rpwp b)), b)
      else None)"
  by (simp add: read_cycle_def lock_read_result unlock_read_result_eq at_load_def
      relock_read_abort)

lemma write_cycle_abort_same:
  assumes "write_cycle N False c b = Some b'"
  shows "rpwp b' = rpwp b \<and> length (elements b') = length (elements b)
    \<and> (\<forall>i. i \<noteq> unat (write_pointer (rpwp b)) \<longrightarrow> elements b' ! i = elements b ! i)"
proof -
  obtain n1 n2 min_free v where c: "c = (n1, n2, min_free, v)" by (cases c)
  show ?thesis
    using assms unfolding c write_cycle_abort_eq
    by (cases v) (auto split: if_splits)
qed

lemma write_cycles_abort_same:
  "write_cycles N False cs b = Some b' \<Longrightarrow>
     rpwp b' = rpwp b \<and> length (elements b') = length (elements b)
     \<and> (\<forall>i. i \<noteq> unat (write_pointer (rpwp b)) \<longrightarrow> elements b' ! i = elements b ! i)"
proof (induction cs arbitrary: b)
  case Nil
  then show ?case by simp
next
  case (Cons c cs)
  then obtain b1 where b1: "write_cycle N False c b = Some b1" "write_cycles N False cs b1 = Some b'"
    by (auto split: option.splits)
  from write_cycle_abort_same [OF b1(1)] Cons.IH [OF b1(2)] show ?case by simp
qed

lemma read_cycles_abort_same:
  "read_cycles N False cs b = Some (vs, b') \<Longrightarrow> b' = b"
proof (induction cs arbitrary: vs)
  case Nil
  then show ?case by simp
next
  case (Cons c cs)
  obtain n1 n2 min_remains where c: "c = (n1, n2, min_remains)" by (cases c)
  from Cons.prems obtain v b1 vs' where s: "read_cycle N False c b = Some (v, b1)"
    "read_cycles N False cs b1 = Some (vs', b')"
    by (auto split: option.splits)
  from s(1) have "b1 = b" unfolding c read_cycle_abort_eq by (auto split: if_splits)
  with s(2) Cons.IH show ?case by simp
qed

lemma read_cycles_off_write_slot:
  assumes N: "valid_N N"
  shows "rpwp b' = rpwp b \<Longrightarrow> length (elements b') = length (elements b) \<Longrightarrow>
    (\<forall>i. i \<noteq> unat (write_pointer (rpwp b)) \<longrightarrow> elements b' ! i = elements b ! i) \<Longrightarrow>
    map_option fst (read_cycles N True cs b') = map_option fst (read_cycles N True cs b)"
proof (induction cs arbitrary: b b')
  case Nil
  then show ?case by simp
next
  case (Cons c cs)
  obtain n1 n2 min_remains where c: "c = (n1, n2, min_remains)" by (cases c)
  let ?ok = "\<not> is_read_locked (rpwp b) \<and> min_remains < count N (rpwp b)
      \<and> unat (read_pointer (rpwp b)) < length (elements b)"
  let ?x = "mod_read_pointer (rpwp b) (next_pointer N (read_pointer (rpwp b)))"
  show ?case
  proof (cases ?ok)
    case False
    then have "read_cycle N True c b = None" "read_cycle N True c b' = None"
      unfolding c read_cycle_eq [OF N] Cons.prems(1) Cons.prems(2) by (simp_all only: if_False)
    then show ?thesis by simp
  next
    case True
    then have "read_pointer (rpwp b) \<noteq> write_pointer (rpwp b)"
      using count_nonzero_pointers_differ by blast
    then have "unat (read_pointer (rpwp b)) \<noteq> unat (write_pointer (rpwp b))"
      by (auto dest: unsigned_word_eqI)
    then have v: "elements b' ! unat (read_pointer (rpwp b)) = elements b ! unat (read_pointer (rpwp b))"
      using Cons.prems(3) by blast
    have s: "read_cycle N True c b = Some (elements b ! unat (read_pointer (rpwp b)), b\<lparr>rpwp := ?x\<rparr>)"
      "read_cycle N True c b' = Some (elements b ! unat (read_pointer (rpwp b)), b'\<lparr>rpwp := ?x\<rparr>)"
      using True Cons.prems(1,2) v by (simp_all add: c read_cycle_eq [OF N])
    have "map_option fst (read_cycles N True cs (b'\<lparr>rpwp := ?x\<rparr>))
        = map_option fst (read_cycles N True cs (b\<lparr>rpwp := ?x\<rparr>))"
      using Cons.prems by (intro Cons.IH) (simp_all add: write_pointer_mod_read_pointer)
    then show ?thesis
      using s by (auto split: option.splits simp: map_option_case)
  qed
qed

section \<open>Interleaved calls of a producer and a consumer\<close>









lemma queued_same:
  "rpwp b' = rpwp b \<Longrightarrow> elements b' = elements b \<Longrightarrow> queued N b' = queued N b"
  by (simp add: queued_def)
























section \<open>Claims\<close>

text \<open>
  C1.  Starting from a freshly constructed buffer, \<open>k \<le> N - 1\<close> write cycles
  (\<open>lock_write\<close>, store into the returned index, \<open>unlock_write\<close> with \<open>commit = true\<close>)
  storing \<open>v1 .. vk\<close>, followed by \<open>k\<close> read cycles (\<open>lock_read\<close>, load from the returned
  index, \<open>unlock_read\<close> with \<open>commit = true\<close>), all succeed, and the reads yield
  \<open>v1 .. vk\<close> in this order.  Each element of \<open>ws\<close> holds the value of one write cycle
  together with the spurious failure counts of its two calls, each element of \<open>rs\<close>
  those of one read cycle.
\<close>

theorem fifo_round_trip:
  fixes ws :: "(nat \<times> nat \<times> 'a) list" and rs :: "(nat \<times> nat) list"
  assumes "valid_N N" and "length init = unat N"
    and "length ws \<le> unat N - 1" and "length rs = length ws"
  shows "\<exists>b1 b2.
    write_cycles N True (map (\<lambda>(n1, n2, v). (n1, n2, 0, Some v)) ws) (new_buffer init) = Some b1
    \<and> read_cycles N True (map (\<lambda>(n1, n2). (n1, n2, 0)) rs) b1
        = Some (map (\<lambda>(n1, n2, v). v) ws, b2)"
proof -
  have z: "unat (write_pointer (rpwp (new_buffer init))) = 0"
    "unat (read_pointer (rpwp (new_buffer init))) = 0"
    "\<not> is_write_locked (rpwp (new_buffer init))" "\<not> is_read_locked (rpwp (new_buffer init))"
    by (simp_all add: new_buffer_def write_pointer_def read_pointer_def is_write_locked_def
        is_read_locked_def)
  have "length (elements (new_buffer init)) = unat N"
    using assms(2) by (simp add: new_buffer_def)
  from write_cycles_fill [OF assms(1) this z(2,3,4), of ws] obtain b1 where b1:
    "write_cycles N True (map (\<lambda>(n1, n2, v). (n1, n2, 0, Some v)) ws) (new_buffer init) = Some b1"
    "length (elements b1) = unat N" "unat (read_pointer (rpwp b1)) = 0"
    "\<not> is_read_locked (rpwp b1)" "unat (write_pointer (rpwp b1)) = length ws"
    "take (length ws) (elements b1) = map (\<lambda>(n1, n2, v). v) ws"
    using assms(3) z(1) by auto
  have "unat (write_pointer (rpwp b1)) < unat N"
    using b1(5) assms(3) valid_N_bounds(1) [OF assms(1)] by linarith
  from read_cycles_drain [OF assms(1) b1(2) this b1(4), of rs] obtain b2 where
    "read_cycles N True (map (\<lambda>(n1, n2). (n1, n2, 0)) rs) b1
      = Some (take (length rs) (drop 0 (elements b1)), b2)"
    using b1(3,5) assms(4) by auto
  then have "read_cycles N True (map (\<lambda>(n1, n2). (n1, n2, 0)) rs) b1
      = Some (map (\<lambda>(n1, n2, v). v) ws, b2)"
    using b1(6) assms(4) by simp
  with b1(1) show ?thesis by blast
qed

theorem fifo_round_trip_witness:
  "valid_N 4 \<and> length [0 :: nat, 0, 0, 0] = unat (4 :: size_t)
   \<and> length [(0 :: nat, 1 :: nat, 10 :: nat), (2, 0, 20), (1, 1, 30)] \<le> unat (4 :: size_t) - 1
   \<and> write_cycles 4 True [(0, 1, 0, Some 10), (2, 0, 0, Some 20), (1, 1, 0, Some 30)]
        (new_buffer [0 :: nat, 0, 0, 0]) = Some \<lparr>rpwp = 3, elements = [10, 20, 30, 0]\<rparr>
   \<and> map_option fst (read_cycles 4 True [(1, 0, 0), (0, 0, 0), (3, 2, 0)]
        \<lparr>rpwp = 3, elements = [10 :: nat, 20, 30, 0]\<rparr>) = Some [10, 20, 30]"
proof -
  have a: "valid_N 4" by code_simp
  have b: "length [0 :: nat, 0, 0, 0] = unat (4 :: size_t)"
    "length [(0 :: nat, 1 :: nat, 10 :: nat), (2, 0, 20), (1, 1, 30)] \<le> unat (4 :: size_t) - 1"
    "length [(1 :: nat, 0 :: nat), (0, 0), (3, 2)] = length [(0 :: nat, 1 :: nat, 10 :: nat), (2, 0, 20), (1, 1, 30)]"
    by simp_all
  have c: "write_cycles 4 True [(0, 1, 0, Some 10), (2, 0, 0, Some 20), (1, 1, 0, Some 30)]
        (new_buffer [0 :: nat, 0, 0, 0]) = Some \<lparr>rpwp = 3, elements = [10, 20, 30, 0]\<rparr>"
    by code_simp
  from fifo_round_trip [OF a b(1) b(2) b(3)] obtain b1 b2 where
    w: "write_cycles 4 True [(0, 1, 0, Some 10), (2, 0, 0, Some 20), (1, 1, 0, Some 30)]
        (new_buffer [0 :: nat, 0, 0, 0]) = Some b1"
    and r: "read_cycles 4 True [(1, 0, 0), (0, 0, 0), (3, 2, 0)] b1 = Some ([10, 20, 30], b2)"
    by auto
  from w c have "b1 = \<lparr>rpwp = 3, elements = [10, 20, 30, 0]\<rparr>" by simp
  with r have "map_option fst (read_cycles 4 True [(1, 0, 0), (0, 0, 0), (3, 2, 0)]
        \<lparr>rpwp = 3, elements = [10 :: nat, 20, 30, 0]\<rparr>) = Some [10, 20, 30]"
    by simp
  with a b(1,2) c show ?thesis by blast
qed

text \<open>
  C2.  For every state word and every \<open>min_free\<close>, \<open>lock_write\<close> succeeds exactly when the
  word is not write-locked and the free count \<open>(N - 1) - count\<close> is greater than
  \<open>min_free\<close>; on success the index returned is the current write pointer and the new
  word differs from the old one in the write lock bit only, which is set; on failure the
  index is \<open>INVALID_INDEX\<close>.  \<open>lock_read\<close> succeeds exactly when the word is not
  read-locked and \<open>count\<close> is greater than \<open>min_remains\<close>, returns the current read
  pointer and sets the read lock bit only; on failure the index is \<open>INVALID_INDEX\<close>.
  The count and the free count are the \<open>size_t\<close> values the code computes.  When both
  pointers are below \<open>N\<close>, as they are in every state a program reaches, these are the
  integers \<open>(write_pointer - read_pointer) mod N\<close> and \<open>N - 1\<close> minus that, with no
  wrap-around; this is the last conjunct.
\<close>

theorem lock_succeeds_iff_unlocked_and_room:
  fixes N min_free min_remains :: size_t and n m :: nat and b :: "'a lockfree_circulation_buffer"
  defines "w \<equiv> lock_write N n b min_free" and "r \<equiv> lock_read N m b min_remains"
  shows "(fst w \<longleftrightarrow> \<not> is_write_locked (rpwp b) \<and> min_free < (N - 1) - count N (rpwp b))
    \<and> (fst w \<longrightarrow> fst (snd w) = write_pointer (rpwp b)
          \<and> is_write_locked (rpwp (snd (snd w)))
          \<and> write_pointer (rpwp (snd (snd w))) = write_pointer (rpwp b)
          \<and> read_pointer (rpwp (snd (snd w))) = read_pointer (rpwp b)
          \<and> is_read_locked (rpwp (snd (snd w))) = is_read_locked (rpwp b)
          \<and> elements (snd (snd w)) = elements b)
    \<and> (\<not> fst w \<longrightarrow> fst (snd w) = INVALID_INDEX)
    \<and> (fst r \<longleftrightarrow> \<not> is_read_locked (rpwp b) \<and> min_remains < count N (rpwp b))
    \<and> (fst r \<longrightarrow> fst (snd r) = read_pointer (rpwp b)
          \<and> is_read_locked (rpwp (snd (snd r)))
          \<and> read_pointer (rpwp (snd (snd r))) = read_pointer (rpwp b)
          \<and> write_pointer (rpwp (snd (snd r))) = write_pointer (rpwp b)
          \<and> is_write_locked (rpwp (snd (snd r))) = is_write_locked (rpwp b)
          \<and> elements (snd (snd r)) = elements b)
    \<and> (\<not> fst r \<longrightarrow> fst (snd r) = INVALID_INDEX)
    \<and> (valid_N N \<and> unat (write_pointer (rpwp b)) < unat N \<and> unat (read_pointer (rpwp b)) < unat N
          \<longrightarrow> uint (count N (rpwp b))
                = (uint (write_pointer (rpwp b)) - uint (read_pointer (rpwp b))) mod uint N
            \<and> uint ((N - 1) - count N (rpwp b))
                = uint N - 1 - (uint (write_pointer (rpwp b)) - uint (read_pointer (rpwp b))) mod uint N)"
proof -
  have "valid_N N \<and> unat (write_pointer (rpwp b)) < unat N \<and> unat (read_pointer (rpwp b)) < unat N
      \<longrightarrow> uint (count N (rpwp b))
            = (uint (write_pointer (rpwp b)) - uint (read_pointer (rpwp b))) mod uint N
        \<and> uint ((N - 1) - count N (rpwp b))
            = uint N - 1 - (uint (write_pointer (rpwp b)) - uint (read_pointer (rpwp b))) mod uint N"
    using uint_count_mod [of "rpwp b" N] uint_free_count [of N "rpwp b"] by blast
  then show ?thesis
    unfolding w_def r_def by (simp add: lock_write_result lock_read_result)
qed

theorem lock_succeeds_iff_unlocked_and_room_witness:
  "fst (lock_write 4 1 (new_buffer [0 :: nat, 0, 0, 0]) 0)
   \<and> fst (snd (lock_write 4 1 (new_buffer [0 :: nat, 0, 0, 0]) 0)) = 0
   \<and> is_write_locked (rpwp (snd (snd (lock_write 4 1 (new_buffer [0 :: nat, 0, 0, 0]) 0))))
   \<and> \<not> fst (lock_write 4 1 \<lparr>rpwp = 3, elements = [0 :: nat, 0, 0, 0]\<rparr> 0)
   \<and> fst (snd (lock_write 4 1 \<lparr>rpwp = 3, elements = [0 :: nat, 0, 0, 0]\<rparr> 0)) = INVALID_INDEX
   \<and> fst (lock_read 4 2 \<lparr>rpwp = 3, elements = [0 :: nat, 0, 0, 0]\<rparr> 2)
   \<and> fst (snd (lock_read 4 2 \<lparr>rpwp = 3, elements = [0 :: nat, 0, 0, 0]\<rparr> 2)) = 0
   \<and> \<not> fst (lock_read 4 2 (new_buffer [0 :: nat, 0, 0, 0]) 0)
   \<and> fst (snd (lock_read 4 2 (new_buffer [0 :: nat, 0, 0, 0]) 0)) = INVALID_INDEX
   \<and> valid_N 4
   \<and> uint (4 - 1 - count 4 (rpwp \<lparr>rpwp = 3, elements = [0 :: nat, 0, 0, 0]\<rparr>)) = 0"
proof -
  have a: "fst (lock_write 4 1 (new_buffer [0 :: nat, 0, 0, 0]) 0)" by code_simp
  have b: "\<not> fst (lock_write 4 1 \<lparr>rpwp = 3, elements = [0 :: nat, 0, 0, 0]\<rparr> 0)" by code_simp
  have c: "fst (lock_read 4 2 \<lparr>rpwp = 3, elements = [0 :: nat, 0, 0, 0]\<rparr> 2)" by code_simp
  have d: "\<not> fst (lock_read 4 2 (new_buffer [0 :: nat, 0, 0, 0]) 0)" by code_simp
  have e: "write_pointer (rpwp (new_buffer [0 :: nat, 0, 0, 0])) = 0" by code_simp
  have f: "read_pointer (rpwp \<lparr>rpwp = 3, elements = [0 :: nat, 0, 0, 0]\<rparr>) = 0"
    "write_pointer (rpwp \<lparr>rpwp = 3, elements = [0 :: nat, 0, 0, 0]\<rparr>) = 3" by code_simp+
  have g: "valid_N 4" by code_simp
  show ?thesis
    using a b c d e f g
      lock_succeeds_iff_unlocked_and_room [of 4 1 "new_buffer [0 :: nat, 0, 0, 0]" 0 2 0]
      lock_succeeds_iff_unlocked_and_room [of 4 1 "\<lparr>rpwp = 3, elements = [0 :: nat, 0, 0, 0]\<rparr>" 0 2 2]
    by simp
qed

text \<open>
  C3.  For every state word, index and commit flag, \<open>unlock_write\<close> succeeds exactly when
  the index is the current write pointer and the word is write-locked.  On success the
  new word has the write lock bit cleared and the read pointer and read lock bit as
  before; its write pointer is \<open>(index + 1) mod N\<close> when \<open>commit\<close> is true and \<open>index\<close>,
  unchanged, when it is false.  The change is one atomic step: the call writes to the
  state word exactly once, by its one successful exchange, and the word it stores is the
  new word, with the pointer advanced and the lock bit cleared together; a failing call
  writes nothing.  Started on any word in memory with any stale \<open>expected\<close> word, the
  loop still writes at most once, and then replaces the word in memory by the word
  computed from that word itself.  \<open>unlock_read\<close> does the same with the read pointer
  and the read lock bit.
\<close>

theorem unlock_commits_or_aborts:
  fixes N :: size_t and n m k :: nat and index :: index_t and commit :: bool
    and b :: "'a lockfree_circulation_buffer" and mem expected :: uint32_t
  assumes "valid_N N"
  defines "w \<equiv> unlock_write N n b index commit" and "r \<equiv> unlock_read N m b index commit"
    and "lw \<equiv> cas_loop (unlock_write_body N index commit) k mem expected"
    and "lr \<equiv> cas_loop (unlock_read_body N index commit) k mem expected"
  shows "(fst w \<longleftrightarrow> index = write_pointer (rpwp b) \<and> is_write_locked (rpwp b))
    \<and> (fst w \<longrightarrow>
          unat (write_pointer (rpwp (snd w))) = (if commit then (unat index + 1) mod unat N else unat index)
          \<and> \<not> is_write_locked (rpwp (snd w))
          \<and> read_pointer (rpwp (snd w)) = read_pointer (rpwp b)
          \<and> is_read_locked (rpwp (snd w)) = is_read_locked (rpwp b)
          \<and> elements (snd w) = elements b)
    \<and> snd (snd (cas_loop (unlock_write_body N index commit) n (rpwp b) (rpwp b)))
        = (if fst w then [rpwp (snd w)] else [])
    \<and> length (snd (snd lw)) \<le> 1
    \<and> (lw = (mem, None, [])
        \<or> unlock_write_body N index commit mem = Some (fst lw) \<and> lw = (fst lw, Some (fst lw), [fst lw]))
    \<and> (fst r \<longleftrightarrow> index = read_pointer (rpwp b) \<and> is_read_locked (rpwp b))
    \<and> (fst r \<longrightarrow>
          unat (read_pointer (rpwp (snd r))) = (if commit then (unat index + 1) mod unat N else unat index)
          \<and> \<not> is_read_locked (rpwp (snd r))
          \<and> write_pointer (rpwp (snd r)) = write_pointer (rpwp b)
          \<and> is_write_locked (rpwp (snd r)) = is_write_locked (rpwp b)
          \<and> elements (snd r) = elements b)
    \<and> snd (snd (cas_loop (unlock_read_body N index commit) m (rpwp b) (rpwp b)))
        = (if fst r then [rpwp (snd r)] else [])
    \<and> length (snd (snd lr)) \<le> 1
    \<and> (lr = (mem, None, [])
        \<or> unlock_read_body N index commit mem = Some (fst lr) \<and> lr = (fst lr, Some (fst lr), [fst lr]))"
proof -
  have old: "(fst w \<longleftrightarrow> index = write_pointer (rpwp b) \<and> is_write_locked (rpwp b))
    \<and> (fst w \<longrightarrow>
          unat (write_pointer (rpwp (snd w))) = (if commit then (unat index + 1) mod unat N else unat index)
          \<and> \<not> is_write_locked (rpwp (snd w))
          \<and> read_pointer (rpwp (snd w)) = read_pointer (rpwp b)
          \<and> is_read_locked (rpwp (snd w)) = is_read_locked (rpwp b)
          \<and> elements (snd w) = elements b)
    \<and> (fst r \<longleftrightarrow> index = read_pointer (rpwp b) \<and> is_read_locked (rpwp b))
    \<and> (fst r \<longrightarrow>
          unat (read_pointer (rpwp (snd r))) = (if commit then (unat index + 1) mod unat N else unat index)
          \<and> \<not> is_read_locked (rpwp (snd r))
          \<and> write_pointer (rpwp (snd r)) = write_pointer (rpwp b)
          \<and> is_write_locked (rpwp (snd r)) = is_write_locked (rpwp b)
          \<and> elements (snd r) = elements b)"
    unfolding w_def r_def
    using unat_next_pointer_lt15 [OF assms(1)]
    by (simp add: unlock_write_result_eq unlock_read_result_eq unat_next_pointer [OF assms(1)]
        read_pointer_mod_read_pointer write_pointer_mod_read_pointer
        is_read_locked_mod_read_pointer is_write_locked_mod_read_pointer
        read_pointer_mod_write_pointer write_pointer_mod_write_pointer
        is_read_locked_mod_write_pointer is_write_locked_mod_write_pointer)
  have sw: "snd (snd (cas_loop (unlock_write_body N index commit) n (rpwp b) (rpwp b)))
      = (if fst w then [rpwp (snd w)] else [])"
    unfolding w_def by (simp add: unlock_write_eq cas_loop_sequential split: option.splits)
  have sr: "snd (snd (cas_loop (unlock_read_body N index commit) m (rpwp b) (rpwp b)))
      = (if fst r then [rpwp (snd r)] else [])"
    unfolding r_def by (simp add: unlock_read_eq cas_loop_sequential split: option.splits)
  note lw = cas_loop_stores [of "unlock_write_body N index commit" k mem expected, folded lw_def]
  note lr = cas_loop_stores [of "unlock_read_body N index commit" k mem expected, folded lr_def]
  from old sw sr lw lr show ?thesis by blast
qed

theorem unlock_commits_or_aborts_witness:
  "valid_N 4
   \<and> fst (unlock_write 4 1 \<lparr>rpwp = 0x8003, elements = [0 :: nat, 0, 0, 0]\<rparr> 3 True)
   \<and> unat (write_pointer (rpwp (snd (unlock_write 4 1 \<lparr>rpwp = 0x8003, elements = [0 :: nat, 0, 0, 0]\<rparr> 3 True)))) = 0
   \<and> snd (snd (cas_loop (unlock_write_body 4 3 True) 1 0x8003 0x8003))
       = [rpwp (snd (unlock_write 4 1 \<lparr>rpwp = 0x8003, elements = [0 :: nat, 0, 0, 0]\<rparr> 3 True))]
   \<and> cas_loop (unlock_write_body 4 3 True) 2 0x8003 0x00018003 = (0, Some 0, [0])
   \<and> fst (unlock_write 4 1 \<lparr>rpwp = 0x8003, elements = [0 :: nat, 0, 0, 0]\<rparr> 3 False)
   \<and> unat (write_pointer (rpwp (snd (unlock_write 4 1 \<lparr>rpwp = 0x8003, elements = [0 :: nat, 0, 0, 0]\<rparr> 3 False)))) = 3
   \<and> fst (unlock_read 4 2 \<lparr>rpwp = 0x80010003, elements = [0 :: nat, 0, 0, 0]\<rparr> 1 True)
   \<and> unat (read_pointer (rpwp (snd (unlock_read 4 2 \<lparr>rpwp = 0x80010003, elements = [0 :: nat, 0, 0, 0]\<rparr> 1 True)))) = 2
   \<and> snd (snd (cas_loop (unlock_read_body 4 1 True) 2 0x80010003 0x80010003))
       = [rpwp (snd (unlock_read 4 2 \<lparr>rpwp = 0x80010003, elements = [0 :: nat, 0, 0, 0]\<rparr> 1 True))]"
proof -
  let ?b = "\<lparr>rpwp = 0x8003, elements = [0 :: nat, 0, 0, 0]\<rparr>"
  let ?c = "\<lparr>rpwp = 0x80010003, elements = [0 :: nat, 0, 0, 0]\<rparr>"
  have a: "valid_N 4" by code_simp
  have s: "fst (unlock_write 4 1 ?b 3 True)" "fst (unlock_write 4 1 ?b 3 False)"
    "fst (unlock_read 4 2 ?c 1 True)"
    by code_simp+
  have t: "fst (cas_loop (unlock_write_body 4 3 True) 2 0x8003 0x00018003) = 0"
    by code_simp
  have ne: "cas_loop (unlock_write_body 4 3 True) 2 0x8003 0x00018003 \<noteq> (0x8003, None, [])"
    using t by auto
  note w1 = unlock_commits_or_aborts [OF a, where n = 1 and b = ?b and index = 3 and commit = True
      and m = 2 and k = 2 and mem = "0x8003" and expected = "0x00018003"]
  note w2 = unlock_commits_or_aborts [OF a, where n = 1 and b = ?b and index = 3 and commit = False
      and m = 2 and k = 2 and mem = "0x8003" and expected = "0x00018003"]
  note w3 = unlock_commits_or_aborts [OF a, where n = 1 and b = ?c and index = 1 and commit = True
      and m = 2 and k = 2 and mem = "0x8003" and expected = "0x00018003"]
  from w1 s(1) have "unat (write_pointer (rpwp (snd (unlock_write 4 1 ?b 3 True)))) = 0"
    and "snd (snd (cas_loop (unlock_write_body 4 3 True) 1 (rpwp ?b) (rpwp ?b)))
       = [rpwp (snd (unlock_write 4 1 ?b 3 True))]"
    by simp_all
  moreover from w1 ne t have "cas_loop (unlock_write_body 4 3 True) 2 0x8003 0x00018003 = (0, Some 0, [0])"
    by simp
  moreover from w2 s(2) have "unat (write_pointer (rpwp (snd (unlock_write 4 1 ?b 3 False)))) = 3"
    by simp
  moreover from w3 s(3) have "unat (read_pointer (rpwp (snd (unlock_read 4 2 ?c 1 True)))) = 2"
    and "snd (snd (cas_loop (unlock_read_body 4 1 True) 2 (rpwp ?c) (rpwp ?c)))
       = [rpwp (snd (unlock_read 4 2 ?c 1 True))]"
    by simp_all
  ultimately show ?thesis using a s by simp
qed

text \<open>
  C4.  Whenever \<open>lock_write\<close>, \<open>unlock_write\<close>, \<open>lock_read\<close>, \<open>unlock_read\<close> or
  \<open>try_clear\<close> returns failure, the buffer after the call, and so its state word, is
  the buffer before it.  A precondition failure leaves the retry loop at once: when the
  loop body breaks on the \<open>expected\<close> word, the loop returns the word in memory as it is,
  without an exchange, whatever the word in memory and the number of spurious failures.
\<close>

theorem failed_operation_leaves_state:
  "(\<not> fst (lock_write N n b min_free) \<longrightarrow> snd (snd (lock_write N n b min_free)) = b)
    \<and> (\<not> fst (unlock_write N n b index commit) \<longrightarrow> snd (unlock_write N n b index commit) = b)
    \<and> (\<not> fst (lock_read N n b min_remains) \<longrightarrow> snd (snd (lock_read N n b min_remains)) = b)
    \<and> (\<not> fst (unlock_read N n b index commit) \<longrightarrow> snd (unlock_read N n b index commit) = b)
    \<and> (\<not> fst (try_clear n b) \<longrightarrow> snd (try_clear n b) = b)
    \<and> (body expected = None \<longrightarrow> cas_loop body n mem expected = (mem, None, []))"
  by (simp add: lock_write_result lock_read_result unlock_write_result_eq unlock_read_result_eq
      try_clear_result cas_loop.simps [of body n mem expected])

theorem failed_operation_leaves_state_witness:
  "\<not> fst (lock_write 4 1 \<lparr>rpwp = 0x80008003, elements = [5 :: nat, 6, 7, 8]\<rparr> 0)
   \<and> snd (snd (lock_write 4 1 \<lparr>rpwp = 0x80008003, elements = [5 :: nat, 6, 7, 8]\<rparr> 0))
       = \<lparr>rpwp = 0x80008003, elements = [5 :: nat, 6, 7, 8]\<rparr>
   \<and> \<not> fst (unlock_write 4 1 \<lparr>rpwp = 0x80008003, elements = [5 :: nat, 6, 7, 8]\<rparr> 2 True)
   \<and> snd (unlock_write 4 1 \<lparr>rpwp = 0x80008003, elements = [5 :: nat, 6, 7, 8]\<rparr> 2 True)
       = \<lparr>rpwp = 0x80008003, elements = [5 :: nat, 6, 7, 8]\<rparr>
   \<and> \<not> fst (lock_read 4 1 \<lparr>rpwp = 0x80008003, elements = [5 :: nat, 6, 7, 8]\<rparr> 0)
   \<and> snd (snd (lock_read 4 1 \<lparr>rpwp = 0x80008003, elements = [5 :: nat, 6, 7, 8]\<rparr> 0))
       = \<lparr>rpwp = 0x80008003, elements = [5 :: nat, 6, 7, 8]\<rparr>
   \<and> \<not> fst (unlock_read 4 1 \<lparr>rpwp = 0x80008003, elements = [5 :: nat, 6, 7, 8]\<rparr> 2 True)
   \<and> snd (unlock_read 4 1 \<lparr>rpwp = 0x80008003, elements = [5 :: nat, 6, 7, 8]\<rparr> 2 True)
       = \<lparr>rpwp = 0x80008003, elements = [5 :: nat, 6, 7, 8]\<rparr>
   \<and> \<not> fst (try_clear 1 \<lparr>rpwp = 0x80008003, elements = [5 :: nat, 6, 7, 8]\<rparr>)
   \<and> snd (try_clear 1 \<lparr>rpwp = 0x80008003, elements = [5 :: nat, 6, 7, 8]\<rparr>)
       = \<lparr>rpwp = 0x80008003, elements = [5 :: nat, 6, 7, 8]\<rparr>
   \<and> try_clear_body 0x80008003 = None
   \<and> cas_loop try_clear_body 1 7 0x80008003 = (7, None, [])"
proof -
  have a: "\<not> fst (lock_write 4 1 \<lparr>rpwp = 0x80008003, elements = [5 :: nat, 6, 7, 8]\<rparr> 0)"
    "\<not> fst (unlock_write 4 1 \<lparr>rpwp = 0x80008003, elements = [5 :: nat, 6, 7, 8]\<rparr> 2 True)"
    "\<not> fst (lock_read 4 1 \<lparr>rpwp = 0x80008003, elements = [5 :: nat, 6, 7, 8]\<rparr> 0)"
    "\<not> fst (unlock_read 4 1 \<lparr>rpwp = 0x80008003, elements = [5 :: nat, 6, 7, 8]\<rparr> 2 True)"
    "\<not> fst (try_clear 1 \<lparr>rpwp = 0x80008003, elements = [5 :: nat, 6, 7, 8]\<rparr>)"
    "try_clear_body 0x80008003 = None"
    by code_simp+
  show ?thesis
    using a
      failed_operation_leaves_state [of 4 1 "\<lparr>rpwp = 0x80008003, elements = [5 :: nat, 6, 7, 8]\<rparr>" 0 2 True 0
        try_clear_body "0x80008003" 7]
    by simp
qed

text \<open>
  C5.  In every state reached from the constructor's zero word by a sequence of public
  operations, both pointers are below \<open>N\<close>, and \<open>count\<close> is
  \<open>(write_pointer - read_pointer) mod N\<close>, between 0 and \<open>N - 1\<close>; \<open>size\<close> returns this
  count and \<open>capacity\<close> returns \<open>N - 1\<close>.
\<close>

theorem reachable_pointers_and_count:
  assumes "valid_N N" and "reachable N b"
  shows "unat (write_pointer (rpwp b)) < unat N \<and> unat (read_pointer (rpwp b)) < unat N
    \<and> uint (count N (rpwp b))
        = (uint (write_pointer (rpwp b)) - uint (read_pointer (rpwp b))) mod uint N
    \<and> 0 \<le> uint (count N (rpwp b)) \<and> uint (count N (rpwp b)) \<le> uint N - 1
    \<and> size_buffer N b = count N (rpwp b)
    \<and> capacity N = N - 1 \<and> uint (capacity N) = uint N - 1"
proof -
  have p: "unat (write_pointer (rpwp b)) < unat N" "unat (read_pointer (rpwp b)) < unat N"
    using reachable_invariant [OF assms] by simp_all
  have "unat (count N (rpwp b)) < unat N" by (rule unat_count_lt [OF p])
  then have "int (unat (count N (rpwp b))) \<le> int (unat N) - 1" by linarith
  then have le: "uint (count N (rpwp b)) \<le> uint N - 1" by (simp only: uint_nat)
  have "N \<noteq> 0" using valid_N_bounds(1) [OF assms(1)] by auto
  then have "unat (N - 1) = unat N - 1" by (rule unat_minus_one)
  moreover have "1 \<le> unat N" using valid_N_bounds(1) [OF assms(1)] by linarith
  ultimately have "int (unat (N - 1)) = int (unat N) - 1" by linarith
  then have c: "uint (capacity N) = uint N - 1"
    by (simp only: capacity_def uint_nat)
  have nn: "0 \<le> uint (count N (rpwp b))" by (rule uint_nonnegative)
  have sz: "size_buffer N b = count N (rpwp b)" by (simp add: size_buffer_def)
  have cp: "capacity N = N - 1" by (simp add: capacity_def)
  from p(1) p(2) uint_count_mod [OF p] nn le sz cp c show ?thesis by blast
qed

theorem reachable_pointers_and_count_witness:
  "valid_N 4
   \<and> reachable 4 (snd (unlock_write 4 0 (snd (snd (lock_write 4 1 (new_buffer [0 :: nat, 0, 0, 0]) 0))) 0 True))
   \<and> rpwp (snd (unlock_write 4 0 (snd (snd (lock_write 4 1 (new_buffer [0 :: nat, 0, 0, 0]) 0))) 0 True)) = 1
   \<and> uint (count 4 1) = (uint (write_pointer 1) - uint (read_pointer 1)) mod uint (4 :: size_t)
   \<and> uint (count 4 1) \<le> uint (4 :: size_t) - 1"
proof -
  have a: "valid_N 4" by code_simp
  have "length [0 :: nat, 0, 0, 0] = unat (4 :: size_t)" by simp
  then have b: "reachable 4 (snd (unlock_write 4 0 (snd (snd (lock_write 4 1 (new_buffer [0 :: nat, 0, 0, 0]) 0))) 0 True))"
    by (intro reachable.after_unlock_write reachable.after_lock_write reachable.constructed)
  have c: "rpwp (snd (unlock_write 4 0 (snd (snd (lock_write 4 1 (new_buffer [0 :: nat, 0, 0, 0]) 0))) 0 True)) = 1"
    by code_simp
  show ?thesis
    using a b c reachable_pointers_and_count [OF a b] by simp
qed

text \<open>
  C6.  For every state word, \<open>try_clear\<close> fails exactly when the write lock or the read
  lock is held.  On success the new word has the read pointer equal to the write
  pointer, with the write pointer and both lock bits as before, so that \<open>size\<close> is 0 and
  \<open>empty\<close> is true right afterwards.  The change is one atomic step: the call writes to
  the state word exactly once, by its one successful exchange, and the word it stores is
  the new word; a failing call writes nothing.  Started on any word in memory with any
  stale \<open>expected\<close> word, the loop still writes at most once, and then replaces the word
  in memory by the word computed from that word itself.
\<close>

theorem try_clear_succeeds_iff_unlocked:
  fixes n k :: nat and b :: "'a lockfree_circulation_buffer" and mem expected :: uint32_t
  defines "r \<equiv> try_clear n b" and "l \<equiv> cas_loop try_clear_body k mem expected"
  shows "(\<not> fst r \<longleftrightarrow> is_write_locked (rpwp b) \<or> is_read_locked (rpwp b))
    \<and> (fst r \<longrightarrow> read_pointer (rpwp (snd r)) = write_pointer (rpwp b)
          \<and> write_pointer (rpwp (snd r)) = write_pointer (rpwp b)
          \<and> is_write_locked (rpwp (snd r)) = is_write_locked (rpwp b)
          \<and> is_read_locked (rpwp (snd r)) = is_read_locked (rpwp b)
          \<and> elements (snd r) = elements b
          \<and> size_buffer N (snd r) = 0
          \<and> empty_buffer (snd r))
    \<and> snd (snd (cas_loop try_clear_body n (rpwp b) (rpwp b))) = (if fst r then [rpwp (snd r)] else [])
    \<and> length (snd (snd l)) \<le> 1
    \<and> (l = (mem, None, []) \<or> try_clear_body mem = Some (fst l) \<and> l = (fst l, Some (fst l), [fst l]))"
proof -
  have old: "(\<not> fst r \<longleftrightarrow> is_write_locked (rpwp b) \<or> is_read_locked (rpwp b))
    \<and> (fst r \<longrightarrow> read_pointer (rpwp (snd r)) = write_pointer (rpwp b)
          \<and> write_pointer (rpwp (snd r)) = write_pointer (rpwp b)
          \<and> is_write_locked (rpwp (snd r)) = is_write_locked (rpwp b)
          \<and> is_read_locked (rpwp (snd r)) = is_read_locked (rpwp b)
          \<and> elements (snd r) = elements b
          \<and> size_buffer N (snd r) = 0
          \<and> empty_buffer (snd r))"
    unfolding r_def
    using unat_write_pointer_lt [of "rpwp b"]
    by (simp add: try_clear_result size_buffer_def empty_buffer_def count_empty
        read_pointer_mod_read_pointer write_pointer_mod_read_pointer
        is_read_locked_mod_read_pointer is_write_locked_mod_read_pointer)
  have s: "snd (snd (cas_loop try_clear_body n (rpwp b) (rpwp b))) = (if fst r then [rpwp (snd r)] else [])"
    unfolding r_def by (simp add: try_clear_eq cas_loop_sequential split: option.splits)
  note l = cas_loop_stores [of try_clear_body k mem expected, folded l_def]
  from old s l show ?thesis by blast
qed

theorem try_clear_succeeds_iff_unlocked_witness:
  "fst (try_clear 2 \<lparr>rpwp = 0x00010003, elements = [5 :: nat, 6, 7, 8]\<rparr>)
   \<and> read_pointer (rpwp (snd (try_clear 2 \<lparr>rpwp = 0x00010003, elements = [5 :: nat, 6, 7, 8]\<rparr>))) = 3
   \<and> size_buffer 4 (snd (try_clear 2 \<lparr>rpwp = 0x00010003, elements = [5 :: nat, 6, 7, 8]\<rparr>)) = 0
   \<and> empty_buffer (snd (try_clear 2 \<lparr>rpwp = 0x00010003, elements = [5 :: nat, 6, 7, 8]\<rparr>))
   \<and> snd (snd (cas_loop try_clear_body 2 0x00010003 0x00010003))
       = [rpwp (snd (try_clear 2 \<lparr>rpwp = 0x00010003, elements = [5 :: nat, 6, 7, 8]\<rparr>))]
   \<and> cas_loop try_clear_body 1 0x00010003 0x00020003 = (0x00030003, Some 0x00030003, [0x00030003])"
proof -
  let ?b = "\<lparr>rpwp = 0x00010003, elements = [5 :: nat, 6, 7, 8]\<rparr>"
  have a: "fst (try_clear 2 ?b)" "write_pointer 0x00010003 = 3"
    by code_simp+
  have t: "fst (cas_loop try_clear_body 1 0x00010003 0x00020003) = 0x00030003"
    by code_simp
  have ne: "cas_loop try_clear_body 1 0x00010003 0x00020003 \<noteq> (0x00010003, None, [])"
    using t by auto
  note w = try_clear_succeeds_iff_unlocked [where n = 2 and b = ?b and N = 4 and k = 1
      and mem = "0x00010003" and expected = "0x00020003"]
  from w a have "read_pointer (rpwp (snd (try_clear 2 ?b))) = 3"
    and "size_buffer 4 (snd (try_clear 2 ?b)) = 0" and "empty_buffer (snd (try_clear 2 ?b))"
    and "snd (snd (cas_loop try_clear_body 2 (rpwp ?b) (rpwp ?b))) = [rpwp (snd (try_clear 2 ?b))]"
    by simp_all
  moreover from w ne t have
    "cas_loop try_clear_body 1 0x00010003 0x00020003 = (0x00030003, Some 0x00030003, [0x00030003])"
    by simp
  ultimately show ?thesis using a(1) by simp
qed

text \<open>
  C7.  Aborted cycles change nothing that can be observed.  When a sequence of write
  cycles that end in \<open>unlock_write\<close> with \<open>commit = false\<close> succeeds, from any state and
  so from any reachable unlocked one, the state word afterwards is the word before,
  \<open>size\<close> is unchanged, and any sequence of committed read cycles that follows yields
  the values it would have yielded without the aborted cycles, whatever the aborted
  cycles stored into their slot.  When a sequence of read cycles that end in
  \<open>unlock_read\<close> with \<open>commit = false\<close> succeeds, the buffer afterwards is the buffer
  before.
\<close>

theorem abort_changes_nothing:
  assumes "valid_N N"
  shows "(write_cycles N False ws b = Some b' \<longrightarrow>
            rpwp b' = rpwp b \<and> size_buffer N b' = size_buffer N b
            \<and> (\<forall>rs. map_option fst (read_cycles N True rs b')
                    = map_option fst (read_cycles N True rs b)))
    \<and> (read_cycles N False rs' b = Some (vs, b'') \<longrightarrow> b'' = b)"
proof (intro conjI impI)
  assume w: "write_cycles N False ws b = Some b'"
  note s = write_cycles_abort_same [OF w]
  from s show "rpwp b' = rpwp b" by simp
  from s show "size_buffer N b' = size_buffer N b" by (simp add: size_buffer_def)
  from s show "\<forall>rs. map_option fst (read_cycles N True rs b')
      = map_option fst (read_cycles N True rs b)"
    using read_cycles_off_write_slot [OF assms, of b' b] by blast
next
  assume "read_cycles N False rs' b = Some (vs, b'')"
  then show "b'' = b" by (rule read_cycles_abort_same)
qed

theorem abort_changes_nothing_witness:
  "valid_N 4
   \<and> reachable 4 \<lparr>rpwp = 1, elements = [10 :: nat, 0, 0, 0]\<rparr>
   \<and> \<not> is_write_locked 1 \<and> \<not> is_read_locked 1
   \<and> write_cycles 4 False [(0, 1, 0, Some 99), (1, 0, 0, None), (0, 0, 1, Some 77)]
        \<lparr>rpwp = 1, elements = [10 :: nat, 0, 0, 0]\<rparr> = Some \<lparr>rpwp = 1, elements = [10, 77, 0, 0]\<rparr>
   \<and> size_buffer 4 \<lparr>rpwp = 1, elements = [10 :: nat, 77, 0, 0]\<rparr>
       = size_buffer 4 \<lparr>rpwp = 1, elements = [10 :: nat, 0, 0, 0]\<rparr>
   \<and> map_option fst (read_cycles 4 True [(0, 0, 0)] \<lparr>rpwp = 1, elements = [10 :: nat, 77, 0, 0]\<rparr>)
       = Some [10]
   \<and> read_cycles 4 False [(0, 0, 0), (1, 2, 0)] \<lparr>rpwp = 1, elements = [10 :: nat, 0, 0, 0]\<rparr>
       = Some ([10, 10], \<lparr>rpwp = 1, elements = [10 :: nat, 0, 0, 0]\<rparr>)"
proof -
  let ?b = "\<lparr>rpwp = 1, elements = [10 :: nat, 0, 0, 0]\<rparr>"
  let ?b' = "\<lparr>rpwp = 1, elements = [10 :: nat, 77, 0, 0]\<rparr>"
  let ?l = "snd (snd (lock_write 4 0 (new_buffer [0 :: nat, 0, 0, 0]) 0))"
  have a: "valid_N 4" by code_simp
  have "length [0 :: nat, 0, 0, 0] = unat (4 :: size_t)" by simp
  then have "reachable 4 ?l"
    by (intro reachable.after_lock_write reachable.constructed)
  moreover have "at_store ?l 0 10 = Some \<lparr>rpwp = 0x8000, elements = [10 :: nat, 0, 0, 0]\<rparr>"
    by code_simp
  ultimately have "reachable 4 \<lparr>rpwp = 0x8000, elements = [10 :: nat, 0, 0, 0]\<rparr>"
    by (rule reachable.after_store)
  then have "reachable 4 (snd (unlock_write 4 0 \<lparr>rpwp = 0x8000, elements = [10 :: nat, 0, 0, 0]\<rparr> 0 True))"
    by (rule reachable.after_unlock_write)
  moreover have "snd (unlock_write 4 0 \<lparr>rpwp = 0x8000, elements = [10 :: nat, 0, 0, 0]\<rparr> 0 True) = ?b"
    by code_simp
  ultimately have r: "reachable 4 ?b" by simp
  have u: "\<not> is_write_locked 1" "\<not> is_read_locked 1" by code_simp+
  have c: "write_cycles 4 False [(0, 1, 0, Some 99), (1, 0, 0, None), (0, 0, 1, Some 77)] ?b = Some ?b'"
    by code_simp
  have d: "read_cycles 4 False [(0, 0, 0), (1, 2, 0)] ?b = Some ([10, 10], ?b)"
    by code_simp
  have e: "map_option fst (read_cycles 4 True [(0, 0, 0)] ?b) = Some [10]"
    by code_simp
  from abort_changes_nothing [OF a, of "[(0, 1, 0, Some 99), (1, 0, 0, None), (0, 0, 1, Some 77)]" ?b ?b'
      "[(0, 0, 0), (1, 2, 0)]" "[10, 10]" ?b] c
  have s: "size_buffer 4 ?b' = size_buffer 4 ?b"
    and f: "\<forall>rs. map_option fst (read_cycles 4 True rs ?b') = map_option fst (read_cycles 4 True rs ?b)"
    by blast+
  from f have "map_option fst (read_cycles 4 True [(0, 0, 0)] ?b')
      = map_option fst (read_cycles 4 True [(0, 0, 0)] ?b)" by (rule spec)
  then have "map_option fst (read_cycles 4 True [(0, 0, 0)] ?b') = Some [10]"
    by (simp only: e)
  with a r u c d s show ?thesis by blast
qed



text \<open>
  C9.  For every index \<open>x\<close> below \<open>N\<close>, with \<open>N\<close> a power of two between 2 and 32768 as the
  constructor's static assertion demands, \<open>prev_pointer x\<close>, computed by the wrapping
  32-bit subtraction \<open>x - 1U\<close> followed by the remainder modulo \<open>N\<close>, is
  \<open>(x + N - 1) mod N\<close>: it is \<open>N - 1\<close> at \<open>x = 0\<close> and \<open>x - 1\<close> otherwise.
\<close>

theorem prev_pointer_wraparound:
  assumes "valid_N N" and "unat x < unat N"
  shows "unat (prev_pointer N x) = (unat x + unat N - 1) mod unat N
    \<and> unat (prev_pointer N x) = (if x = 0 then unat N - 1 else unat x - 1)"
proof -
  have e: "unat (prev_pointer N x) = (unat x + unat N - 1) mod unat N"
    by (rule unat_prev_pointer [OF assms])
  have "(unat x + unat N - 1) mod unat N = (if x = 0 then unat N - 1 else unat x - 1)"
  proof (cases "x = 0")
    case True
    then show ?thesis using valid_N_bounds [OF assms(1)] by simp
  next
    case False
    then have "0 < unat x" by (simp add: unat_gt_0)
    then show ?thesis using False assms(2) by (simp add: mod_if)
  qed
  with e show ?thesis by simp
qed

theorem prev_pointer_wraparound_witness:
  "valid_N 4 \<and> unat (0 :: index_t) < unat (4 :: size_t) \<and> unat (prev_pointer 4 0) = 3"
  using prev_pointer_wraparound [of 4 0] by (simp add: valid_N_def)

text \<open>
  C10.  Both pointers of any state word are 15-bit values, and in every reachable state
  they are below \<open>N\<close>, which is at most 32768.  So an index returned by a successful
  \<open>lock_write\<close> or \<open>lock_read\<close> is below \<open>N\<close>, a valid index into the storage array,
  and is not \<open>INVALID_INDEX\<close> (65535); and \<open>unlock_write\<close> and \<open>unlock_read\<close> called with
  \<open>INVALID_INDEX\<close> fail.
\<close>

theorem returned_index_in_range:
  fixes N min_free min_remains :: size_t and n :: nat and b :: "'a lockfree_circulation_buffer"
  assumes "valid_N N" and "reachable N b"
  defines "w \<equiv> lock_write N n b min_free" and "r \<equiv> lock_read N n b min_remains"
  shows "unat (write_pointer (rpwp b)) < 2 ^ 15 \<and> unat (read_pointer (rpwp b)) < 2 ^ 15
    \<and> unat (write_pointer (rpwp b)) < unat N \<and> unat (read_pointer (rpwp b)) < unat N
    \<and> unat N \<le> 32768 \<and> unat INVALID_INDEX = 65535
    \<and> (fst w \<longrightarrow> unat (fst (snd w)) < unat N \<and> unat (fst (snd w)) < length (elements (snd (snd w)))
          \<and> fst (snd w) \<noteq> INVALID_INDEX)
    \<and> (fst r \<longrightarrow> unat (fst (snd r)) < unat N \<and> unat (fst (snd r)) < length (elements (snd (snd r)))
          \<and> fst (snd r) \<noteq> INVALID_INDEX)
    \<and> \<not> fst (unlock_write N n b INVALID_INDEX commit)
    \<and> \<not> fst (unlock_read N n b INVALID_INDEX commit)"
proof -
  have p: "unat (write_pointer (rpwp b)) < unat N" "unat (read_pointer (rpwp b)) < unat N"
    "length (elements b) = unat N"
    using reachable_invariant [OF assms(1,2)] by simp_all
  have q: "write_pointer (rpwp b) \<noteq> INVALID_INDEX" "read_pointer (rpwp b) \<noteq> INVALID_INDEX"
    "INVALID_INDEX \<noteq> write_pointer (rpwp b)" "INVALID_INDEX \<noteq> read_pointer (rpwp b)"
    using pointer_neq_INVALID_INDEX [of "rpwp b"] by simp_all
  show ?thesis
    unfolding w_def r_def
    using p q unat_write_pointer_lt [of "rpwp b"] unat_read_pointer_lt [of "rpwp b"]
      valid_N_bounds(2) [OF assms(1)] unat_INVALID_INDEX
    by (simp add: lock_write_result lock_read_result unlock_write_result_eq unlock_read_result_eq)
qed

theorem returned_index_in_range_witness:
  "valid_N 4
   \<and> reachable 4 (snd (unlock_write 4 0 (snd (snd (lock_write 4 1 (new_buffer [0 :: nat, 0, 0, 0]) 0))) 0 True))
   \<and> fst (lock_write 4 2 (snd (unlock_write 4 0 (snd (snd (lock_write 4 1 (new_buffer [0 :: nat, 0, 0, 0]) 0))) 0 True)) 0)
   \<and> fst (snd (lock_write 4 2 (snd (unlock_write 4 0 (snd (snd (lock_write 4 1 (new_buffer [0 :: nat, 0, 0, 0]) 0))) 0 True)) 0))
       \<noteq> INVALID_INDEX
   \<and> fst (lock_read 4 2 (snd (unlock_write 4 0 (snd (snd (lock_write 4 1 (new_buffer [0 :: nat, 0, 0, 0]) 0))) 0 True)) 0)
   \<and> fst (snd (lock_read 4 2 (snd (unlock_write 4 0 (snd (snd (lock_write 4 1 (new_buffer [0 :: nat, 0, 0, 0]) 0))) 0 True)) 0))
       \<noteq> INVALID_INDEX
   \<and> \<not> fst (unlock_write 4 2 (snd (unlock_write 4 0 (snd (snd (lock_write 4 1 (new_buffer [0 :: nat, 0, 0, 0]) 0))) 0 True))
         INVALID_INDEX True)"
proof -
  have a: "valid_N 4" by code_simp
  have "length [0 :: nat, 0, 0, 0] = unat (4 :: size_t)" by simp
  then have b: "reachable 4 (snd (unlock_write 4 0 (snd (snd (lock_write 4 1 (new_buffer [0 :: nat, 0, 0, 0]) 0))) 0 True))"
    by (intro reachable.after_unlock_write reachable.after_lock_write reachable.constructed)
  have c: "fst (lock_write 4 2 (snd (unlock_write 4 0 (snd (snd (lock_write 4 1 (new_buffer [0 :: nat, 0, 0, 0]) 0))) 0 True)) 0)"
    "fst (lock_read 4 2 (snd (unlock_write 4 0 (snd (snd (lock_write 4 1 (new_buffer [0 :: nat, 0, 0, 0]) 0))) 0 True)) 0)"
    by code_simp+
  show ?thesis
    using a b c returned_index_in_range [OF a b, of 2 0 0 True] by simp
qed

end
